theory Spec2Isabelle
  imports Main "HOL-Library.Word" "HOL-Library.Multiset" "HOL-Library.Code_Target_Nat"
begin

unbundle bit_operations_syntax

section \<open>Machine types and errors\<close>

type_synonym byte = "8 word"
type_synonym u32 = "32 word"
type_synonym u64 = "64 word"

text \<open>
  Every call of \<open>die\<close> in main.cpp ends the run; the model returns the matching error.
  The constructors follow the messages passed to \<open>die\<close>:
  \<^item> \<open>UnexpectedEOF\<close>: "unexpected EOF in binary file", "unexpected EOF (u32)",
    "unexpected EOF (u64)", "unexpected EOF (varint)";
  \<^item> \<open>MalformedVarint\<close>: "varint too long";
  \<^item> \<open>BinaryTooSmall\<close>: "binary too small";
  \<^item> \<open>NoMagic\<close>, \<open>BadMagic\<close>, \<open>UnsupportedVersion\<close>, \<open>UnsupportedEndian\<close>: the header checks;
  \<^item> \<open>ParseFirst\<close>, \<open>ParseSecond\<close>, \<open>ParseWeight\<close>: the three parse errors of the scanner;
  \<^item> \<open>IdNotFound\<close>: "id not found in uniq (internal)";
  \<^item> \<open>AccessFault\<close>: no call of \<open>die\<close>; the deserializer indexes \<open>orig_of\<close> without a
    range check, and a read behind the vector that hits memory the process may not read
    kills it (see \<open>fetch\<close>).
\<close>

datatype error =
    UnexpectedEOF
  | MalformedVarint
  | BinaryTooSmall
  | NoMagic
  | BadMagic
  | UnsupportedVersion
  | UnsupportedEndian
  | ParseFirst
  | ParseSecond
  | ParseWeight
  | IdNotFound
  | AccessFault

section \<open>BinWriter\<close>

text \<open>
  The writer appends bytes to its buffer and flushes them to the file in order, so a
  writer operation is modelled as the list of bytes it puts.
\<close>

definition u32le :: "u32 \<Rightarrow> byte list" where
  "u32le x = [ucast (x AND 0xFF), ucast (drop_bit 8 x AND 0xFF),
              ucast (drop_bit 16 x AND 0xFF), ucast (drop_bit 24 x AND 0xFF)]"

definition u64le :: "u64 \<Rightarrow> byte list" where
  "u64le x = map (\<lambda>i. ucast (drop_bit (8 * i) x AND 0xFF)) [0..<8]"

text \<open>\<open>void varu(uint64_t x){ while (x>=0x80){ put(uint8_t(x)|0x80); x>>=7; } put(uint8_t(x)); }\<close>\<close>

function varu :: "u64 \<Rightarrow> byte list" where
  "varu x = (if x \<ge> 0x80 then (ucast x OR 0x80) # varu (drop_bit 7 x) else [ucast x])"
  by pat_completeness auto
termination
proof (relation "measure unat")
  fix x :: u64
  assume "0x80 \<le> x"
  then have "x \<noteq> 0" by auto
  then have "unat x \<noteq> 0" by (simp add: unat_eq_0)
  then have "unat x div 2 ^ 7 < unat x" by simp
  then show "(drop_bit 7 x, x) \<in> measure unat"
    by (simp add: unat_drop_bit_eq drop_bit_eq_div unat_div)
qed simp

declare varu.simps [simp del]

section \<open>BinReader\<close>

text \<open>
  The reader is the pointer pair \<open>(p, e)\<close>; the model keeps the bytes from \<open>p\<close> to
  \<open>e\<close>, so \<open>has(n)\<close> is a pattern of at least \<open>n\<close> bytes. Every read returns the value
  and the remaining bytes, or the error of \<open>die\<close>.
\<close>

fun get :: "byte list \<Rightarrow> error + (byte \<times> byte list)" where
  "get [] = Inl UnexpectedEOF"
| "get (b # bs) = Inr (b, bs)"

fun rd_u32le :: "byte list \<Rightarrow> error + (u32 \<times> byte list)" where
  "rd_u32le (b0 # b1 # b2 # b3 # bs) =
     Inr (ucast b0 OR push_bit 8 (ucast b1) OR push_bit 16 (ucast b2) OR push_bit 24 (ucast b3), bs)"
| "rd_u32le _ = Inl UnexpectedEOF"

fun rd_u64le :: "byte list \<Rightarrow> error + (u64 \<times> byte list)" where
  "rd_u64le (b0 # b1 # b2 # b3 # b4 # b5 # b6 # b7 # bs) =
     Inr (ucast b0 OR push_bit 8 (ucast b1) OR push_bit 16 (ucast b2) OR push_bit 24 (ucast b3)
          OR push_bit 32 (ucast b4) OR push_bit 40 (ucast b5) OR push_bit 48 (ucast b6)
          OR push_bit 56 (ucast b7), bs)"
| "rd_u64le _ = Inl UnexpectedEOF"

text \<open>
  \<open>uint64_t varu(){ uint64_t x=0; int s=0; while(true){ if(!has(1)) die(...EOF...);
  uint8_t b=*p++; x |= uint64_t(b & 0x7F) << s; if(!(b&0x80)) break; s+=7;
  if (s>63) die("varint too long"); } return x; }\<close>

  \<open>rd_varu_loop x s\<close> is the loop entered with the accumulator \<open>x\<close> and the shift \<open>s\<close>.
\<close>

fun rd_varu_loop :: "u64 \<Rightarrow> nat \<Rightarrow> byte list \<Rightarrow> error + (u64 \<times> byte list)" where
  "rd_varu_loop x s [] = Inl UnexpectedEOF"
| "rd_varu_loop x s (b # bs) =
     (let x' = x OR push_bit s (ucast (b AND 0x7F)) in
      if b AND 0x80 = 0 then Inr (x', bs)
      else if s + 7 > 63 then Inl MalformedVarint
      else rd_varu_loop x' (s + 7) bs)"

definition rd_varu :: "byte list \<Rightarrow> error + (u64 \<times> byte list)" where
  "rd_varu bs = rd_varu_loop 0 0 bs"


section \<open>TSVScanner\<close>

definition TAB :: char where "TAB = CHR 0x09"
definition NL :: char where "NL = CHR 0x0A"
definition CR :: char where "CR = CHR 0x0D"

definition is_digit :: "char \<Rightarrow> bool" where
  "is_digit c = (48 \<le> (of_char c :: nat) \<and> (of_char c :: nat) \<le> 57)"

definition digit_val :: "char \<Rightarrow> nat" where
  "digit_val c = of_char c - 48"

text \<open>
  \<open>skip_newline(q, e)\<close>: \<open>if(q<e && *q=='\r'){ ++q; } if(q<e && *q=='\n'){ ++q; }\<close>.
  The scanner position \<open>q\<close> is modelled by the characters from \<open>q\<close> to \<open>e\<close>.
\<close>

definition skip_newline :: "string \<Rightarrow> string" where
  "skip_newline q =
     (let q1 = (case q of [] \<Rightarrow> q | c # r \<Rightarrow> if c = CR then r else q)
      in (case q1 of [] \<Rightarrow> q1 | c # r \<Rightarrow> if c = NL then r else q1))"

text \<open>
  The loop of \<open>parse_u32_until\<close>, entered with the accumulator \<open>x\<close>, the flag \<open>any\<close> and
  the last consumed character \<open>lst\<close> (the caller reads \<open>q[-1]\<close> afterwards). \<open>None\<close> is
  \<open>return false\<close> from inside the loop. \<open>x\<close> is a \<open>uint64_t\<close> below \<open>2^32 * 10 + 10\<close>, so it
  never wraps and is a \<open>nat\<close> here.
\<close>

fun parse_u32_loop :: "char \<Rightarrow> nat \<Rightarrow> bool \<Rightarrow> char option \<Rightarrow> string
    \<Rightarrow> (nat \<times> bool \<times> char option \<times> string) option" where
  "parse_u32_loop delim x any lst [] = Some (x, any, lst, [])"
| "parse_u32_loop delim x any lst (c # q) =
     (if is_digit c then
        (let x' = x * 10 + digit_val c in
         if x' > 0xFFFFFFFF then None else parse_u32_loop delim x' True (Some c) q)
      else if c = delim then Some (x, any, Some c, q)
      else if delim = NL \<and> (c = NL \<or> c = CR) then Some (x, any, Some c, q)
      else None)"

definition parse_u32_until :: "char \<Rightarrow> string \<Rightarrow> (u32 \<times> char option \<times> string) option" where
  "parse_u32_until delim q =
     (case parse_u32_loop delim 0 False None q of
        None \<Rightarrow> None
      | Some (x, any, lst, q') \<Rightarrow> if \<not> any then None else Some (word_of_nat x, lst, q'))"

lemma parse_u32_loop_length:
  "parse_u32_loop delim x any lst q = Some (x', any', lst', q') \<Longrightarrow> length q' \<le> length q"
  by (induction delim x any lst q rule: parse_u32_loop.induct)
     (auto simp: Let_def split: if_splits)

lemma parse_u32_loop_consumes:
  "parse_u32_loop delim x False lst q = Some (x', True, lst', q') \<Longrightarrow> length q' < length q"
  by (cases q) (auto simp: Let_def split: if_splits dest: parse_u32_loop_length)

lemma parse_u32_until_length:
  "parse_u32_until delim q = Some (v, lst, q') \<Longrightarrow> length q' < length q"
  by (auto simp: parse_u32_until_def split: option.splits if_splits dest: parse_u32_loop_consumes)

lemma skip_newline_length:
  "c = NL \<or> c = CR \<Longrightarrow> length (skip_newline (c # q)) < Suc (length q)"
  by (auto simp: skip_newline_def NL_def CR_def split: list.splits)

text \<open>
  \<open>for_each_triplet(f)\<close> calls \<open>f\<close> on every triple in input order and dies at the first
  parse error. The three passes of the serializer run it on the same bytes with three
  callbacks, so the model returns the list of triples passed to \<open>f\<close>, or the error.
  After the weight, \<open>q<e && q[-1]=='\r'\<close> eats a following newline.
\<close>

function for_each_triplet :: "string \<Rightarrow> error + (u32 \<times> u32 \<times> byte) list" where
  "for_each_triplet [] = Inr []"
| "for_each_triplet (c # q) =
     (if c = NL \<or> c = CR then for_each_triplet (skip_newline (c # q))
      else case parse_u32_until TAB (c # q) of
        None \<Rightarrow> Inl ParseFirst
      | Some (a, l1, q1) \<Rightarrow>
     (case parse_u32_until TAB q1 of
        None \<Rightarrow> Inl ParseSecond
      | Some (b, l2, q2) \<Rightarrow>
     (case parse_u32_until NL q2 of
        None \<Rightarrow> Inl ParseWeight
      | Some (w, l3, q3) \<Rightarrow>
        if w > 255 then Inl ParseWeight
        else (case for_each_triplet
                     (if q3 \<noteq> [] \<and> l3 = Some CR \<and> hd q3 = NL then tl q3 else q3) of
                Inl e \<Rightarrow> Inl e
              | Inr ts \<Rightarrow> Inr ((a, b, ucast w) # ts)))))"
  by pat_completeness auto
termination
proof (relation "measure length", goal_cases)
  case 1
  show ?case by simp
next
  case (2 c q)
  then show ?case using skip_newline_length[of c q] by simp
next
  case (3 c q x2 a y l1 q1 x2a b ya l2 q2 x2b w yb l3 q3)
  from 3 have "length q1 < length (c # q)" "length q2 < length q1" "length q3 < length q2"
    by (auto dest: parse_u32_until_length)
  then show ?case by (cases q3) auto
qed

declare for_each_triplet.simps(2) [simp del]

section \<open>TextWriter\<close>

text \<open>
  \<open>std::to_chars\<close> on an unsigned value: its decimal digits, no sign and no leading zero.
\<close>

fun to_chars :: "nat \<Rightarrow> string" where
  "to_chars n = (if n < 10 then [char_of (48 + n)]
                 else to_chars (n div 10) @ [char_of (48 + n mod 10)])"

declare to_chars.simps [simp del]

definition putu :: "u32 \<Rightarrow> string" where
  "putu x = to_chars (unat x)"

definition putu8 :: "byte \<Rightarrow> string" where
  "putu8 x = to_chars (unat x)"

text \<open>
  One output line: \<open>tw.putu(a); tw.put('\t'); tw.putu(b); tw.put('\t'); tw.putu8(w); tw.newline();\<close>
\<close>

definition put_line :: "u32 \<times> u32 \<times> byte \<Rightarrow> string" where
  "put_line l = (case l of (a, b, w) \<Rightarrow> putu a @ [TAB] @ putu b @ [TAB] @ putu8 w @ [NL])"


section \<open>Deserializer\<close>

text \<open>
  \<open>if (br.get()!='G' || br.get()!='R' || br.get()!='P' || br.get()!='H') die("bad magic")\<close>,
  after \<open>if (!(br.has(4))) die("no magic")\<close>.
\<close>

fun check_magic :: "byte list \<Rightarrow> error + byte list" where
  "check_magic (g # r # p # h # bs) =
     (if g \<noteq> 0x47 \<or> r \<noteq> 0x52 \<or> p \<noteq> 0x50 \<or> h \<noteq> 0x48 then Inl BadMagic else Inr bs)"
| "check_magic _ = Inl NoMagic"

text \<open>Version 1 mapping: \<open>for (uint32_t i=0;i<N;++i) orig_of[i] = br.u32le();\<close>\<close>

fun rd_mapping_v1 :: "nat \<Rightarrow> byte list \<Rightarrow> error + (u32 list \<times> byte list)" where
  "rd_mapping_v1 0 bs = Inr ([], bs)"
| "rd_mapping_v1 (Suc n) bs =
     (case rd_u32le bs of
        Inl e \<Rightarrow> Inl e
      | Inr (x, bs1) \<Rightarrow>
          (case rd_mapping_v1 n bs1 of
             Inl e \<Rightarrow> Inl e
           | Inr (xs, bs2) \<Rightarrow> Inr (x # xs, bs2)))"

text \<open>
  Version 2 mapping after the first entry:
  \<open>for (uint32_t i=1;i<N;++i){ uint64_t d = br.varu(); orig_of[i] = orig_of[i-1] + (uint32_t)d; }\<close>
\<close>

fun rd_deltas :: "nat \<Rightarrow> u32 \<Rightarrow> byte list \<Rightarrow> error + (u32 list \<times> byte list)" where
  "rd_deltas 0 prev bs = Inr ([], bs)"
| "rd_deltas (Suc n) prev bs =
     (case rd_varu bs of
        Inl e \<Rightarrow> Inl e
      | Inr (d, bs1) \<Rightarrow>
          (case rd_deltas n (prev + ucast d) bs1 of
             Inl e \<Rightarrow> Inl e
           | Inr (xs, bs2) \<Rightarrow> Inr ((prev + ucast d) # xs, bs2)))"

definition rd_mapping_v2 :: "u32 \<Rightarrow> byte list \<Rightarrow> error + (u32 list \<times> byte list)" where
  "rd_mapping_v2 N bs =
     (if N > 0 then
        (case rd_u32le bs of
           Inl e \<Rightarrow> Inl e
         | Inr (first, bs1) \<Rightarrow>
             (case rd_deltas (unat N - 1) first bs1 of
                Inl e \<Rightarrow> Inl e
              | Inr (xs, bs2) \<Rightarrow> Inr (first # xs, bs2)))
      else Inr ([], bs))"

text \<open>
  \<open>orig_of[j]\<close> is read with no range check (\<open>tw.putu(orig_of[j])\<close>, \<open>tw.putu(orig_of[v])\<close>).
  For \<open>j\<close> below \<open>N = orig_of.size()\<close> the read gives the entry. For \<open>j \<ge> N\<close> it reads the
  memory behind the vector: C++ leaves the result undefined, and a run either finds a word
  there, which it prints, or is killed by the access. The parameter \<open>mem\<close> stands for that
  memory: \<open>mem j\<close> is the word at the place where a \<open>j\<close>-th entry would lie, \<open>None\<close> where
  the access faults.
\<close>

definition fetch :: "(nat \<Rightarrow> u32 option) \<Rightarrow> u32 list \<Rightarrow> u32 \<Rightarrow> error + u32" where
  "fetch mem orig_of j =
     (if unat j < length orig_of then Inr (orig_of ! unat j)
      else case mem (unat j) of None \<Rightarrow> Inl AccessFault | Some x \<Rightarrow> Inr x)"

text \<open>
  One record of the adjacency or loop section, read with the running base \<open>prev\<close>:
  \<open>uint64_t gap = br.varu(); uint32_t j = prev + (uint32_t)gap; uint8_t w = br.get();\<close>
  (and the same with \<open>d\<close>, \<open>v\<close>, \<open>acc\<close> in the loop section). The cast drops the upper half
  of \<open>gap\<close>, the sum wraps modulo \<open>2^32\<close>, and nothing compares \<open>j\<close> with \<open>N\<close>. The result is
  \<open>(gap, j, w)\<close> and the bytes that follow.
\<close>

definition rd_entry :: "u32 \<Rightarrow> byte list \<Rightarrow> error + (u64 \<times> u32 \<times> byte \<times> byte list)" where
  "rd_entry prev bs =
     (case rd_varu bs of
        Inl e \<Rightarrow> Inl e
      | Inr (gap, bs1) \<Rightarrow>
          (case get bs1 of
             Inl e \<Rightarrow> Inl e
           | Inr (w, bs2) \<Rightarrow> Inr (gap, prev + ucast gap, w, bs2)))"

text \<open>
  The text writer receives one line per adjacency entry and per loop. The decoding
  functions return the triples \<open>(orig_of[i], orig_of[j], w)\<close> in the order in which the
  lines are written; \<open>put_line\<close> renders them.

  Inner adjacency loop for vertex \<open>i\<close>, entered with \<open>prev\<close> and \<open>k\<close> entries to go: the
  record is read, then \<open>orig_of[i]\<close> and \<open>orig_of[j]\<close> are read and the line is written,
  then \<open>prev = j\<close>.
\<close>

fun adj_entries :: "(nat \<Rightarrow> u32 option) \<Rightarrow> u32 list \<Rightarrow> u32 \<Rightarrow> u32 \<Rightarrow> nat \<Rightarrow> byte list
    \<Rightarrow> error + ((u32 \<times> u32 \<times> byte) list \<times> byte list)" where
  "adj_entries mem orig_of i prev 0 bs = Inr ([], bs)"
| "adj_entries mem orig_of i prev (Suc k) bs =
     (case rd_entry prev bs of
        Inl e \<Rightarrow> Inl e
      | Inr (gap, j, w, bs2) \<Rightarrow>
     (case fetch mem orig_of i of
        Inl e \<Rightarrow> Inl e
      | Inr a \<Rightarrow>
     (case fetch mem orig_of j of
        Inl e \<Rightarrow> Inl e
      | Inr b \<Rightarrow>
     (case adj_entries mem orig_of i j k bs2 of
        Inl e \<Rightarrow> Inl e
      | Inr (ls, bs3) \<Rightarrow> Inr ((a, b, w) # ls, bs3)))))"

text \<open>
  Outer adjacency loop \<open>for (uint32_t i=0;i<N;++i){ uint64_t deg = br.varu(); uint32_t prev = i; ... }\<close>,
  entered at vertex \<open>i\<close> with \<open>n\<close> vertices to go.
\<close>

fun adj_vertices :: "(nat \<Rightarrow> u32 option) \<Rightarrow> u32 list \<Rightarrow> u32 \<Rightarrow> nat \<Rightarrow> byte list
    \<Rightarrow> error + ((u32 \<times> u32 \<times> byte) list \<times> byte list)" where
  "adj_vertices mem orig_of i 0 bs = Inr ([], bs)"
| "adj_vertices mem orig_of i (Suc n) bs =
     (case rd_varu bs of
        Inl e \<Rightarrow> Inl e
      | Inr (deg, bs1) \<Rightarrow>
     (case adj_entries mem orig_of i i (unat deg) bs1 of
        Inl e \<Rightarrow> Inl e
      | Inr (ls, bs2) \<Rightarrow>
     (case adj_vertices mem orig_of (i + 1) n bs2 of
        Inl e \<Rightarrow> Inl e
      | Inr (ls', bs3) \<Rightarrow> Inr (ls @ ls', bs3))))"

text \<open>
  Loop section after \<open>L\<close>, entered with \<open>acc\<close> and \<open>t\<close> records to go: the record is read,
  then \<open>orig_of[v]\<close> is read once for each of the two fields of the line, then \<open>acc = v\<close>.
\<close>

fun loop_entries :: "(nat \<Rightarrow> u32 option) \<Rightarrow> u32 list \<Rightarrow> u32 \<Rightarrow> nat \<Rightarrow> byte list
    \<Rightarrow> error + ((u32 \<times> u32 \<times> byte) list \<times> byte list)" where
  "loop_entries mem orig_of acc 0 bs = Inr ([], bs)"
| "loop_entries mem orig_of acc (Suc t) bs =
     (case rd_entry acc bs of
        Inl e \<Rightarrow> Inl e
      | Inr (d, v, w, bs2) \<Rightarrow>
     (case fetch mem orig_of v of
        Inl e \<Rightarrow> Inl e
      | Inr a \<Rightarrow>
     (case fetch mem orig_of v of
        Inl e \<Rightarrow> Inl e
      | Inr b \<Rightarrow>
     (case loop_entries mem orig_of v t bs2 of
        Inl e \<Rightarrow> Inl e
      | Inr (ls, bs3) \<Rightarrow> Inr ((a, b, w) # ls, bs3)))))"

text \<open>Header fields \<open>N\<close> and \<open>M_total\<close>, by version.\<close>

definition rd_counts :: "byte \<Rightarrow> byte list \<Rightarrow> error + (u32 \<times> u64 \<times> byte list)" where
  "rd_counts version bs =
     (if version = 1 then
        (case rd_u32le bs of
           Inl e \<Rightarrow> Inl e
         | Inr (N, bs1) \<Rightarrow>
             (case rd_u64le bs1 of Inl e \<Rightarrow> Inl e | Inr (M, bs2) \<Rightarrow> Inr (N, M, bs2)))
      else
        (case rd_varu bs of
           Inl e \<Rightarrow> Inl e
         | Inr (n, bs1) \<Rightarrow>
             (case rd_varu bs1 of Inl e \<Rightarrow> Inl e | Inr (M, bs2) \<Rightarrow> Inr (ucast n, M, bs2))))"

text \<open>
  The body of \<open>Deserializer::run\<close> after the mapping: adjacency, then loops. Bytes after
  the loop section are not looked at.
\<close>

definition rd_sections :: "(nat \<Rightarrow> u32 option) \<Rightarrow> u32 list \<Rightarrow> u32 \<Rightarrow> byte list
    \<Rightarrow> error + (u32 \<times> u32 \<times> byte) list" where
  "rd_sections mem orig_of N bs =
     (case adj_vertices mem orig_of 0 (unat N) bs of
        Inl e \<Rightarrow> Inl e
      | Inr (ls, bs1) \<Rightarrow>
     (case rd_varu bs1 of
        Inl e \<Rightarrow> Inl e
      | Inr (L, bs2) \<Rightarrow>
     (case loop_entries mem orig_of 0 (unat L) bs2 of
        Inl e \<Rightarrow> Inl e
      | Inr (ls', bs3) \<Rightarrow> Inr (ls @ ls'))))"

text \<open>
  The header checks of \<open>Deserializer::run\<close>: magic, version (1 or 2), endian marker (1).
  Returns the version and the bytes after the six header bytes.
\<close>

definition rd_header :: "byte list \<Rightarrow> error + (byte \<times> byte list)" where
  "rd_header data =
     (case check_magic data of
        Inl e \<Rightarrow> Inl e
      | Inr bs0 \<Rightarrow>
     (case get bs0 of
        Inl e \<Rightarrow> Inl e
      | Inr (version, bs1) \<Rightarrow>
        if version \<noteq> 1 \<and> version \<noteq> 2 then Inl UnsupportedVersion
        else
     (case get bs1 of
        Inl e \<Rightarrow> Inl e
      | Inr (endian, bs2) \<Rightarrow>
        if endian \<noteq> 1 then Inl UnsupportedEndian else Inr (version, bs2))))"

text \<open>
  After the header: the counts, the mapping and the two sections. \<open>M_total\<close> is read and
  dropped.
\<close>

definition rd_graph :: "(nat \<Rightarrow> u32 option) \<Rightarrow> byte \<Rightarrow> byte list
    \<Rightarrow> error + (u32 list \<times> (u32 \<times> u32 \<times> byte) list)" where
  "rd_graph mem version bs =
     (case rd_counts version bs of
        Inl e \<Rightarrow> Inl e
      | Inr (N, M_total, bs3) \<Rightarrow>
     (case (if version = 1 then rd_mapping_v1 (unat N) bs3 else rd_mapping_v2 N bs3) of
        Inl e \<Rightarrow> Inl e
      | Inr (orig_of, bs4) \<Rightarrow>
     (case rd_sections mem orig_of N bs4 of
        Inl e \<Rightarrow> Inl e
      | Inr ls \<Rightarrow> Inr (orig_of, ls))))"

text \<open>
  \<open>Deserializer::run\<close> up to the text writer: the mapping \<open>orig_of\<close> and the lines in the
  order written. The host is taken to be little-endian.
  \<open>if (sz < 4+1+1+4+8) die("binary too small");\<close> comes first.
\<close>

definition decode :: "(nat \<Rightarrow> u32 option) \<Rightarrow> byte list
    \<Rightarrow> error + (u32 list \<times> (u32 \<times> u32 \<times> byte) list)" where
  "decode mem data =
     (if length data < 4 + 1 + 1 + 4 + 8 then Inl BinaryTooSmall
      else case rd_header data of
        Inl e \<Rightarrow> Inl e
      | Inr (version, bs) \<Rightarrow> rd_graph mem version bs)"

definition Deserializer_run :: "(nat \<Rightarrow> u32 option) \<Rightarrow> byte list \<Rightarrow> error + string" where
  "Deserializer_run mem data =
     (case decode mem data of
        Inl e \<Rightarrow> Inl e
      | Inr (orig_of, ls) \<Rightarrow> Inr (concat (map put_line ls)))"


section \<open>Serializer\<close>

text \<open>
  Container sizes and positions (\<open>line_cnt\<close>, \<open>N\<close>, \<open>deg_plus\<close>, \<open>off\<close>, \<open>cur\<close>, the
  loop counters) are natural numbers in the model; vertex identifiers, compact indices
  and weights are the words the source stores. The \<open>uint32_t\<close> and \<open>uint64_t\<close> counters of
  the source hold the same numbers as long as the input has fewer than \<open>2^31\<close> lines
  (at most \<open>2^32 - 2\<close> endpoints, so \<open>N\<close> and every \<open>deg_plus[i]\<close> fit 32 bits).
\<close>

text \<open>Pass 1: \<open>all_ids.push_back(a); all_ids.push_back(b); ++line_cnt;\<close>\<close>

definition all_ids :: "(u32 \<times> u32 \<times> byte) list \<Rightarrow> u32 list" where
  "all_ids ts = concat (map (\<lambda>(a, b, w). [a, b]) ts)"

text \<open>
  \<open>sort(uniq.begin(), uniq.end()); uniq.erase(unique(uniq.begin(), uniq.end()), uniq.end());\<close>
  \<open>std::unique\<close> drops every element equal to its predecessor.
\<close>

definition uniq_of :: "u32 list \<Rightarrow> u32 list" where
  "uniq_of ids = remdups_adj (sort ids)"

text \<open>
  \<open>std::lower_bound\<close>: the first position whose element is not less than \<open>x\<close>
  (on a sorted range, the position a binary search returns).
\<close>

definition lower_bound :: "u32 list \<Rightarrow> u32 \<Rightarrow> nat" where
  "lower_bound xs x = length (takeWhile (\<lambda>y. y < x) xs)"

definition idx_of :: "u32 list \<Rightarrow> u32 \<Rightarrow> error + u32" where
  "idx_of uniq x =
     (let it = lower_bound uniq x in
      if it = length uniq \<or> uniq ! it \<noteq> x then Inl IdNotFound else Inr (word_of_nat it))"

text \<open>
  Pass 2, the callback over the triples, on the state \<open>(deg_plus, M_noLoops, loops_count)\<close>.
\<close>

fun pass2 :: "u32 list \<Rightarrow> (u32 \<times> u32 \<times> byte) list \<Rightarrow> nat list \<times> nat \<times> nat
    \<Rightarrow> error + (nat list \<times> nat \<times> nat)" where
  "pass2 uniq [] st = Inr st"
| "pass2 uniq ((a, b, w) # ts) (deg_plus, M_noLoops, loops_count) =
     (case idx_of uniq a of
        Inl e \<Rightarrow> Inl e
      | Inr ia \<Rightarrow>
     (case idx_of uniq b of
        Inl e \<Rightarrow> Inl e
      | Inr ib \<Rightarrow>
          if ia = ib then pass2 uniq ts (deg_plus, M_noLoops, loops_count + 1)
          else pass2 uniq ts
                 (deg_plus[unat (min ia ib) := deg_plus ! unat (min ia ib) + 1],
                  M_noLoops + 1, loops_count)))"

text \<open>\<open>vector<uint64_t> off(N+1, 0); for (i<N) off[i+1] = off[i] + deg_plus[i];\<close>\<close>

fun prefix_sums :: "nat \<Rightarrow> nat list \<Rightarrow> nat list" where
  "prefix_sums acc [] = [acc]"
| "prefix_sums acc (d # ds) = acc # prefix_sums (acc + d) ds"

text \<open>
  Pass 3, the callback over the triples, on the state \<open>(cur, upper_nei, upper_w, loops)\<close>:
  \<open>uint64_t pos = cur[u]++; upper_nei[pos] = v; upper_w[pos] = w;\<close>
\<close>

fun pass3 :: "u32 list \<Rightarrow> (u32 \<times> u32 \<times> byte) list
    \<Rightarrow> nat list \<times> u32 list \<times> byte list \<times> (u32 \<times> byte) list
    \<Rightarrow> error + (nat list \<times> u32 list \<times> byte list \<times> (u32 \<times> byte) list)" where
  "pass3 uniq [] st = Inr st"
| "pass3 uniq ((a, b, w) # ts) (cur, upper_nei, upper_w, loops) =
     (case idx_of uniq a of
        Inl e \<Rightarrow> Inl e
      | Inr ia \<Rightarrow>
     (case idx_of uniq b of
        Inl e \<Rightarrow> Inl e
      | Inr ib \<Rightarrow>
          if ia = ib then pass3 uniq ts (cur, upper_nei, upper_w, loops @ [(ia, w)])
          else pass3 uniq ts
                 (cur[unat (min ia ib) := cur ! unat (min ia ib) + 1],
                  upper_nei[cur ! unat (min ia ib) := max ia ib],
                  upper_w[cur ! unat (min ia ib) := w],
                  loops)))"

text \<open>The entries \<open>xs[b], ..., xs[e-1]\<close>.\<close>

definition segment :: "nat \<Rightarrow> nat \<Rightarrow> 'a list \<Rightarrow> 'a list" where
  "segment b e xs = take (e - b) (drop b xs)"

text \<open>\<open>for (size_t t=0;t<len;++t) xs[b+t] = ys[t];\<close>\<close>

fun write_at :: "nat \<Rightarrow> 'a list \<Rightarrow> 'a list \<Rightarrow> 'a list" where
  "write_at b [] xs = xs"
| "write_at b (y # ys) xs = write_at (Suc b) ys (xs[b := y])"

text \<open>
  \<open>std::sort(tmp.begin(), tmp.end(), [](auto &x, auto &y){ return x.first < y.first; })\<close>
  returns a permutation of its input that ascends in the first components; the order of
  entries with equal first components is left to the library and need not be the input
  order. The parameter \<open>tie\<close> stands for the library's choice: \<open>tie xs\<close> is the order it
  produces for \<open>xs\<close>. Only a choice that \<open>std::sort\<close> may make is taken (a permutation of
  \<open>xs\<close>, ascending in the first components); for any other \<open>tie\<close> the input order decides.
\<close>

definition std_sort :: "((u32 \<times> byte) list \<Rightarrow> (u32 \<times> byte) list) \<Rightarrow> (u32 \<times> byte) list
    \<Rightarrow> (u32 \<times> byte) list" where
  "std_sort tie xs =
     (if mset (tie xs) = mset xs \<and> sorted (map fst (tie xs)) then tie xs else sort_key fst xs)"

text \<open>
  One round of the per-vertex sort: \<open>if (len<=1) continue;\<close>, the entries of the vertex
  are copied to \<open>tmp\<close>, sorted and written back.
\<close>

definition sort_vertex :: "((u32 \<times> byte) list \<Rightarrow> (u32 \<times> byte) list) \<Rightarrow> nat list \<Rightarrow> nat
    \<Rightarrow> u32 list \<times> byte list \<Rightarrow> u32 list \<times> byte list" where
  "sort_vertex tie off i st =
     (case st of (upper_nei, upper_w) \<Rightarrow>
        let b = off ! i; e = off ! (i + 1) in
        if e - b \<le> 1 then (upper_nei, upper_w)
        else
          let tmp = std_sort tie (zip (segment b e upper_nei) (segment b e upper_w))
          in (write_at b (map fst tmp) upper_nei, write_at b (map snd tmp) upper_w))"

record csr =
  uniq :: "u32 list"
  off :: "nat list"
  upper_nei :: "u32 list"
  upper_w :: "byte list"
  loops :: "(u32 \<times> byte) list"
  M_noLoops :: nat

text \<open>
  \<open>Serializer::run\<close> from the sort of the identifiers to the sort of the loops, for a
  non-empty list of triples.
\<close>

definition build :: "((u32 \<times> byte) list \<Rightarrow> (u32 \<times> byte) list) \<Rightarrow> (u32 \<times> u32 \<times> byte) list
    \<Rightarrow> error + csr" where
  "build tie ts =
     (let uq = uniq_of (all_ids ts); N = length uq in
      case pass2 uq ts (replicate N 0, 0, 0) of
        Inl e \<Rightarrow> Inl e
      | Inr (deg_plus, M, loops_count) \<Rightarrow>
          let offs = prefix_sums 0 deg_plus in
          (case pass3 uq ts (offs, replicate (offs ! N) 0, replicate (offs ! N) 0, []) of
             Inl e \<Rightarrow> Inl e
           | Inr (cur, nei, wts, lps) \<Rightarrow>
               (case fold (sort_vertex tie offs) [0..<N] (nei, wts) of (nei', wts') \<Rightarrow>
                  Inr \<lparr>uniq = uq, off = offs, upper_nei = nei', upper_w = wts',
                       loops = std_sort tie lps, M_noLoops = M\<rparr>)))"

text \<open>\<open>bw.write("GRPH",4); bw.put(2); bw.put(1);\<close>\<close>

definition header_v2 :: "byte list" where
  "header_v2 = [0x47, 0x52, 0x50, 0x48, 2, 1]"

text \<open>
  Mapping: \<open>bw.u32le(uniq[0]); for (i=1;i<N;++i){ uint32_t d = uniq[i] - uniq[i-1]; bw.varu(d); }\<close>
\<close>

fun put_deltas :: "u32 \<Rightarrow> u32 list \<Rightarrow> byte list" where
  "put_deltas prev [] = []"
| "put_deltas prev (x # xs) = varu (ucast (x - prev)) @ put_deltas x xs"

definition put_mapping :: "u32 list \<Rightarrow> byte list" where
  "put_mapping uq = (case uq of [] \<Rightarrow> [] | x # xs \<Rightarrow> u32le x @ put_deltas x xs)"

text \<open>
  Entries of one vertex: \<open>uint32_t gap = j - prev; bw.varu(gap); bw.put(upper_w[k]); prev = j;\<close>
  The same loop writes the loop section, with \<open>prevLoop\<close> for \<open>prev\<close>.
\<close>

fun put_gaps :: "u32 \<Rightarrow> (u32 \<times> byte) list \<Rightarrow> byte list" where
  "put_gaps prev [] = []"
| "put_gaps prev ((j, w) # es) = varu (ucast (j - prev)) @ [w] @ put_gaps j es"

definition put_vertex :: "csr \<Rightarrow> nat \<Rightarrow> byte list" where
  "put_vertex g i =
     (let b = off g ! i; e = off g ! (i + 1) in
      varu (word_of_nat (e - b))
      @ put_gaps (word_of_nat i) (zip (segment b e (upper_nei g)) (segment b e (upper_w g))))"

definition emit :: "csr \<Rightarrow> byte list" where
  "emit g =
     (let N = length (uniq g) in
      header_v2
      @ varu (ucast (word_of_nat N :: u32))
      @ varu (word_of_nat (M_noLoops g + length (loops g)))
      @ put_mapping (uniq g)
      @ concat (map (put_vertex g) [0..<N])
      @ varu (word_of_nat (length (loops g)))
      @ put_gaps 0 (loops g))"

text \<open>
  \<open>Serializer::run\<close> on the bytes of the input file: the bytes of the output file, or the
  error. The host is taken to be little-endian. With no triple the header and the two
  counts are all that is written.
\<close>

definition Serializer_run :: "((u32 \<times> byte) list \<Rightarrow> (u32 \<times> byte) list) \<Rightarrow> string
    \<Rightarrow> error + byte list" where
  "Serializer_run tie data =
     (case for_each_triplet data of
        Inl e \<Rightarrow> Inl e
      | Inr ts \<Rightarrow>
          if length ts = 0 then Inr (header_v2 @ varu 0 @ varu 0)
          else (case build tie ts of Inl e \<Rightarrow> Inl e | Inr g \<Rightarrow> Inr (emit g)))"

section \<open>Terms of the specification\<close>

text \<open>The bit length of a number: \<open>0\<close> for \<open>0\<close>, else the position of its highest set bit plus one.\<close>

fun bitlen :: "nat \<Rightarrow> nat" where
  "bitlen n = (if n = 0 then 0 else Suc (bitlen (n div 2)))"

declare bitlen.simps [simp del]

text \<open>The canonical form \<open>(min(u,v), max(u,v), w)\<close> of an edge.\<close>

definition canon :: "u32 \<times> u32 \<times> byte \<Rightarrow> u32 \<times> u32 \<times> byte" where
  "canon t = (case t of (u, v, w) \<Rightarrow> (min u v, max u v, w))"


text \<open>
  The version-1 header of the format comment in main.cpp:
  \<open>[4B magic 'GRPH'][1B version=1][1B endian=1 (little)]\<close>. The writer never emits it.
\<close>

definition header_v1 :: "byte list" where
  "header_v1 = [0x47, 0x52, 0x50, 0x48, 1, 1]"

text \<open>
  The sections of a binary as the deserializer decodes them, without the look-up in
  \<open>orig_of\<close>: the records \<open>(gap, j, w)\<close> of one vertex or of the loop section, read by
  \<open>rd_entry\<close> with the running base, and the adjacency section as one list of records per
  vertex, each preceded by its \<open>deg\<close> and read with the base \<open>i\<close>.
\<close>

fun rd_records :: "u32 \<Rightarrow> nat \<Rightarrow> byte list \<Rightarrow> error + ((u64 \<times> u32 \<times> byte) list \<times> byte list)" where
  "rd_records prev 0 bs = Inr ([], bs)"
| "rd_records prev (Suc k) bs =
     (case rd_entry prev bs of
        Inl e \<Rightarrow> Inl e
      | Inr (gap, j, w, bs2) \<Rightarrow>
     (case rd_records j k bs2 of
        Inl e \<Rightarrow> Inl e
      | Inr (rs, bs3) \<Rightarrow> Inr ((gap, j, w) # rs, bs3)))"

fun rd_adjacency :: "u32 \<Rightarrow> nat \<Rightarrow> byte list
    \<Rightarrow> error + ((u64 \<times> u32 \<times> byte) list list \<times> byte list)" where
  "rd_adjacency i 0 bs = Inr ([], bs)"
| "rd_adjacency i (Suc n) bs =
     (case rd_varu bs of
        Inl e \<Rightarrow> Inl e
      | Inr (deg, bs1) \<Rightarrow>
     (case rd_records i (unat deg) bs1 of
        Inl e \<Rightarrow> Inl e
      | Inr (rs, bs2) \<Rightarrow>
     (case rd_adjacency (i + 1) n bs2 of
        Inl e \<Rightarrow> Inl e
      | Inr (rss, bs3) \<Rightarrow> Inr (rs # rss, bs3))))"

text \<open>
  The decoded indices of a list of records.
\<close>

definition indices :: "(u64 \<times> u32 \<times> byte) list \<Rightarrow> u32 list" where
  "indices rs = map (\<lambda>(gap, j, w). j) rs"

text \<open>
  Gaps that are non-negative from the base \<open>prev\<close>: every decoded index is the sum of its
  predecessor and the gap as numbers, so that neither the cast nor the addition of
  \<open>rd_entry\<close> loses anything, and it is an index of the mapping.
\<close>

fun exact_gaps :: "nat \<Rightarrow> u32 \<Rightarrow> (u64 \<times> u32 \<times> byte) list \<Rightarrow> bool" where
  "exact_gaps N prev [] = True"
| "exact_gaps N prev ((gap, j, w) # rs) =
     (unat prev + unat gap = unat j \<and> unat j < N \<and> exact_gaps N j rs)"

text \<open>
  A list of records of canonical shape from the base \<open>prev\<close>: the decoded indices do not
  decrease, starting at \<open>prev\<close>, and the gaps are non-negative.
\<close>

definition ascending_records :: "nat \<Rightarrow> u32 \<Rightarrow> (u64 \<times> u32 \<times> byte) list \<Rightarrow> bool" where
  "ascending_records N prev rs = (sorted (prev # indices rs) \<and> exact_gaps N prev rs)"

text \<open>The lists of records of the vertices \<open>i, i+1, ...\<close>, each of canonical shape from its vertex.\<close>

fun ascending_adjacency :: "nat \<Rightarrow> u32 \<Rightarrow> (u64 \<times> u32 \<times> byte) list list \<Rightarrow> bool" where
  "ascending_adjacency N i [] = True"
| "ascending_adjacency N i (rs # rss) = (ascending_records N i rs \<and> ascending_adjacency N (i + 1) rss)"

text \<open>
  The canonical shape of a binary, read off its bytes: it has the version-2 header and the
  two counts; the mapping decodes to \<open>N\<close> strictly ascending identifiers; the adjacency
  section decodes to \<open>N\<close> lists of records, the one of vertex \<open>i\<close> of canonical shape from
  the base \<open>i\<close>; the loop section decodes to records of canonical shape from the base \<open>0\<close>,
  and the file ends there. The file of the empty graph ends after the counts.
\<close>

definition canonical_binary :: "byte list \<Rightarrow> bool" where
  "canonical_binary bin =
     (case rd_header bin of
        Inl e \<Rightarrow> False
      | Inr (version, bs) \<Rightarrow>
          version = 2 \<and>
     (case rd_counts version bs of
        Inl e \<Rightarrow> False
      | Inr (N, M_total, bs2) \<Rightarrow>
     (case rd_mapping_v2 N bs2 of
        Inl e \<Rightarrow> False
      | Inr (orig, bs3) \<Rightarrow>
          length orig = unat N \<and> sorted_wrt (<) orig \<and>
     (case rd_adjacency 0 (unat N) bs3 of
        Inl e \<Rightarrow> False
      | Inr (rss, bs4) \<Rightarrow>
          length rss = unat N \<and> ascending_adjacency (unat N) 0 rss \<and>
          (if N = 0 \<and> bs4 = [] then True
           else
     (case rd_varu bs4 of
        Inl e \<Rightarrow> False
      | Inr (L, bs5) \<Rightarrow>
     (case rd_records 0 (unat L) bs5 of
        Inl e \<Rightarrow> False
      | Inr (lps, bs6) \<Rightarrow>
          length lps = unat L \<and> ascending_records (unat N) 0 lps \<and> bs6 = [])))))))"

section \<open>Notions used in the proofs about the serializer\<close>

text \<open>
  The compact index that \<open>idx_of\<close> returns for an identifier of \<open>uniq\<close>, the triples
  after compaction, and the callbacks of pass 2 and pass 3 on compacted triples.
\<close>

definition lb :: "u32 list \<Rightarrow> u32 \<Rightarrow> u32" where
  "lb uq x = word_of_nat (lower_bound uq x)"

definition cedges :: "u32 list \<Rightarrow> (u32 \<times> u32 \<times> byte) list \<Rightarrow> (u32 \<times> u32 \<times> byte) list" where
  "cedges uq ts = map (\<lambda>(a, b, w). (lb uq a, lb uq b, w)) ts"

fun step2 :: "u32 \<times> u32 \<times> byte \<Rightarrow> nat list \<times> nat \<times> nat \<Rightarrow> nat list \<times> nat \<times> nat" where
  "step2 (ia, ib, w) (deg_plus, M, lc) =
     (if ia = ib then (deg_plus, M, lc + 1)
      else (deg_plus[unat (min ia ib) := deg_plus ! unat (min ia ib) + 1], M + 1, lc))"

fun step3 :: "u32 \<times> u32 \<times> byte \<Rightarrow> nat list \<times> u32 list \<times> byte list \<times> (u32 \<times> byte) list
    \<Rightarrow> nat list \<times> u32 list \<times> byte list \<times> (u32 \<times> byte) list" where
  "step3 (ia, ib, w) (cur, nei, wts, lps) =
     (if ia = ib then (cur, nei, wts, lps @ [(ia, w)])
      else (cur[unat (min ia ib) := cur ! unat (min ia ib) + 1],
            nei[cur ! unat (min ia ib) := max ia ib],
            wts[cur ! unat (min ia ib) := w],
            lps))"

text \<open>
  The entries that belong to vertex \<open>u\<close>, in input order: one \<open>(max, w)\<close> for every
  non-loop edge whose smaller index is \<open>u\<close>; the loops; indices below \<open>N\<close>.
\<close>

definition bucket :: "nat \<Rightarrow> (u32 \<times> u32 \<times> byte) list \<Rightarrow> (u32 \<times> byte) list" where
  "bucket u es = map (\<lambda>(ia, ib, w). (max ia ib, w))
                     (filter (\<lambda>(ia, ib, w). ia \<noteq> ib \<and> unat (min ia ib) = u) es)"

definition loops_of :: "(u32 \<times> u32 \<times> byte) list \<Rightarrow> (u32 \<times> byte) list" where
  "loops_of es = map (\<lambda>(ia, ib, w). (ia, w)) (filter (\<lambda>(ia, ib, w). ia = ib) es)"

definition valid_edges :: "nat \<Rightarrow> (u32 \<times> u32 \<times> byte) list \<Rightarrow> bool" where
  "valid_edges N es = (\<forall>e \<in> set es. unat (fst e) < N \<and> unat (fst (snd e)) < N)"

text \<open>
  \<open>off\<close> is the prefix sum of the bucket sizes; the state of pass 3 after the triples
  \<open>p\<close>; the state of the sorting loop before vertex \<open>k\<close>.
\<close>

definition offsets_ok :: "nat \<Rightarrow> nat list \<Rightarrow> (u32 \<times> u32 \<times> byte) list \<Rightarrow> bool" where
  "offsets_ok N offs es =
     (length offs = Suc N
      \<and> (\<forall>u < N. offs ! Suc u = offs ! u + length (bucket u es))
      \<and> (\<forall>i j. i \<le> j \<and> j \<le> N \<longrightarrow> offs ! i \<le> offs ! j))"

definition pass3_inv :: "nat \<Rightarrow> nat list \<Rightarrow> (u32 \<times> u32 \<times> byte) list
    \<Rightarrow> nat list \<times> u32 list \<times> byte list \<times> (u32 \<times> byte) list \<Rightarrow> bool" where
  "pass3_inv N offs p st =
     (case st of (cur, nei, wts, lps) \<Rightarrow>
        length cur = Suc N \<and> length nei = offs ! N \<and> length wts = offs ! N
        \<and> (\<forall>u < N. cur ! u = offs ! u + length (bucket u p))
        \<and> (\<forall>u < N. segment (offs ! u) (cur ! u) nei = map fst (bucket u p))
        \<and> (\<forall>u < N. segment (offs ! u) (cur ! u) wts = map snd (bucket u p))
        \<and> lps = loops_of p)"

definition sort_inv :: "((u32 \<times> byte) list \<Rightarrow> (u32 \<times> byte) list) \<Rightarrow> nat \<Rightarrow> nat list
    \<Rightarrow> (u32 \<times> u32 \<times> byte) list \<Rightarrow> nat \<Rightarrow> u32 list \<times> byte list \<Rightarrow> bool" where
  "sort_inv tie N offs es k st =
     (case st of (nei, wts) \<Rightarrow>
        length nei = offs ! N \<and> length wts = offs ! N
        \<and> (\<forall>u < N. segment (offs ! u) (offs ! Suc u) nei
                      = map fst (if u < k then std_sort tie (bucket u es) else bucket u es))
        \<and> (\<forall>u < N. segment (offs ! u) (offs ! Suc u) wts
                      = map snd (if u < k then std_sort tie (bucket u es) else bucket u es)))"

text \<open>
  The arrays before they are written: \<open>uniq\<close> strictly ascending; for every vertex
  \<open>i\<close> the neighbours ascending from the base \<open>i\<close> (so no gap \<open>j - prev\<close> wraps) and all
  above \<open>i\<close>; the loop vertices ascending from the base \<open>0\<close>.
\<close>

definition canonical_arrays :: "csr \<Rightarrow> bool" where
  "canonical_arrays g =
     (sorted_wrt (<) (uniq g)
      \<and> list_all (\<lambda>i. sorted (word_of_nat i # segment (off g ! i) (off g ! (i + 1)) (upper_nei g))
                     \<and> list_all (\<lambda>j. word_of_nat i < j)
                          (segment (off g ! i) (off g ! (i + 1)) (upper_nei g)))
          [0..<length (uniq g)]
      \<and> sorted (0 # map fst (loops g)))"

text \<open>
  The records that the reader decodes from the gaps written for the entries \<open>es\<close> with the
  base \<open>prev\<close>.
\<close>

fun records_of :: "u32 \<Rightarrow> (u32 \<times> byte) list \<Rightarrow> (u64 \<times> u32 \<times> byte) list" where
  "records_of prev [] = []"
| "records_of prev ((j, w) # es) = (ucast (j - prev), j, w) # records_of j es"

text \<open>A sample input: two parallel edges with swapped endpoints, a third edge and a loop.\<close>

definition two_parallel_edges_and_loop :: string where
  "two_parallel_edges_and_loop =
     ''5'' @ [TAB] @ ''3'' @ [TAB] @ ''9'' @ [NL] @
     ''3'' @ [TAB] @ ''5'' @ [TAB] @ ''20'' @ [NL] @
     ''3'' @ [TAB] @ ''4'' @ [TAB] @ ''1'' @ [NL] @
     ''7'' @ [TAB] @ ''7'' @ [TAB] @ ''255'' @ [NL]"

text \<open>
  The lines that the deserializer writes for the entries of vertex \<open>i\<close> and for the
  loops, and the line that belongs to one compacted triple.
\<close>

definition vertex_lines :: "u32 list \<Rightarrow> nat \<Rightarrow> (u32 \<times> byte) list \<Rightarrow> (u32 \<times> u32 \<times> byte) list" where
  "vertex_lines uq i es = map (\<lambda>(j, w). (uq ! i, uq ! unat j, w)) es"

definition loop_lines :: "u32 list \<Rightarrow> (u32 \<times> byte) list \<Rightarrow> (u32 \<times> u32 \<times> byte) list" where
  "loop_lines uq lps = map (\<lambda>(v, w). (uq ! unat v, uq ! unat v, w)) lps"

definition line_of :: "u32 list \<Rightarrow> u32 \<times> u32 \<times> byte \<Rightarrow> u32 \<times> u32 \<times> byte" where
  "line_of uq e = (case e of (ia, ib, w) \<Rightarrow>
     if ia = ib then (uq ! unat ia, uq ! unat ia, w)
     else (uq ! unat (min ia ib), uq ! unat (max ia ib), w))"

section \<open>The varint codec\<close>

lemma bitlen_bounds: "n \<noteq> 0 \<Longrightarrow> 2 ^ (bitlen n - 1) \<le> n \<and> n < 2 ^ bitlen n"
proof (induction n rule: bitlen.induct)
  case (1 n)
  show ?case
  proof (cases "n div 2 = 0")
    case True
    with 1 have "n = 1" by (cases n) auto
    then show ?thesis by (simp add: bitlen.simps)
  next
    case False
    with 1 have ih: "2 ^ (bitlen (n div 2) - 1) \<le> n div 2" "n div 2 < 2 ^ bitlen (n div 2)" by auto
    from False have pos: "bitlen (n div 2) > 0" by (simp add: bitlen.simps)
    have eq: "bitlen n = Suc (bitlen (n div 2))" using 1 by (simp add: bitlen.simps)
    from pos obtain k where k: "bitlen (n div 2) = Suc k" by (cases "bitlen (n div 2)") auto
    from ih k show ?thesis unfolding eq by auto
  qed
qed

lemma bitlen_drop: "2 ^ k \<le> n \<Longrightarrow> bitlen n = bitlen (n div 2 ^ k) + k"
proof (induction k arbitrary: n)
  case 0
  then show ?case by simp
next
  case (Suc k)
  have "(0::nat) < 2 ^ Suc k" by simp
  with Suc.prems have n0: "n \<noteq> 0" by linarith
  from Suc.prems have "2 ^ k \<le> n div 2" by simp
  from Suc.IH[OF this] have "bitlen (n div 2) = bitlen (n div 2 div 2 ^ k) + k" .
  moreover have "n div 2 div 2 ^ k = n div 2 ^ Suc k" by (simp add: div_mult2_eq)
  moreover have "bitlen n = Suc (bitlen (n div 2))" using n0 by (simp add: bitlen.simps)
  ultimately show ?case by simp
qed

lemma bitlen_div128: "n \<ge> 128 \<Longrightarrow> bitlen n = bitlen (n div 128) + 7"
  using bitlen_drop[of 7 n] by simp

lemma bitlen_small: "n \<noteq> 0 \<Longrightarrow> n < 128 \<Longrightarrow> 1 \<le> bitlen n \<and> bitlen n \<le> 7"
proof -
  assume a: "n \<noteq> 0" "n < 128"
  from bitlen_bounds[OF a(1)] a(2) have "(2::nat) ^ (bitlen n - 1) < 2 ^ 7" by simp
  then have "bitlen n - 1 < 7" by (simp only: power_strict_increasing_iff) 
  moreover have "bitlen n \<ge> 1" using a(1) by (simp add: bitlen.simps)
  ultimately show ?thesis by simp
qed

lemma varu_length: "length (varu x) = (if x = 0 then 1 else (bitlen (unat x) + 6) div 7)"
proof (induction x rule: varu.induct)
  case (1 x)
  show ?case
  proof (cases "x \<ge> 0x80")
    case True
    then have u: "unat x \<ge> 128" by (simp add: word_le_nat_alt)
    then have x0: "x \<noteq> 0" by auto
    have ud: "unat (drop_bit 7 x) = unat x div 128" by (simp add: unat_drop_bit_eq drop_bit_eq_div unat_div)
    with u have d0: "drop_bit 7 x \<noteq> 0" by (metis div_greater_zero_iff not_less0 unat_0 zero_less_numeral)
    have "length (varu x) = Suc (length (varu (drop_bit 7 x)))" using True by (subst varu.simps) simp
    also have "\<dots> = Suc ((bitlen (unat x div 128) + 6) div 7)" using 1[OF True] d0 ud by simp
    also have "\<dots> = (bitlen (unat x) + 6) div 7" using bitlen_div128[OF u] by simp
    finally show ?thesis using x0 by simp
  next
    case False
    then have u: "unat x < 128" by (simp add: word_le_nat_alt not_le)
    have l: "length (varu x) = 1" using False by (subst varu.simps) simp
    show ?thesis
    proof (cases "x = 0")
      case True then show ?thesis using l by simp
    next
      case False
      then have "unat x \<noteq> 0" by (simp add: unat_eq_0)
      from bitlen_small[OF this u] have "(bitlen (unat x) + 6) div 7 = 1" by auto
      with l False show ?thesis by simp
    qed
  qed
qed


lemma bit_127_int: "bit (127::int) n \<longleftrightarrow> n < 7"
proof -
  have h: "(127::int) = mask 7" by (simp add: mask_eq_exp_minus_1)
  show ?thesis unfolding h by (simp add: bit_mask_iff)
qed

lemma bit_128_int: "bit (128::int) n \<longleftrightarrow> n = 7"
proof -
  have h: "(128::int) = 2 ^ 7" by simp
  show ?thesis unfolding h by (simp only: bit_exp_iff) auto
qed

lemma varu_byte_payload: "(ucast ((ucast (y::u64) OR (0x80::byte)) AND 0x7F) :: u64) = y AND 0x7F"
  by (rule bit_eqI) (auto simp add: bit_simps bit_127_int bit_128_int)

lemma varu_byte_cont: "(ucast (y::u64) OR (0x80::byte)) AND 0x80 \<noteq> 0"
proof
  assume "(ucast y OR (0x80::byte)) AND 0x80 = 0"
  then have "bit ((ucast y OR (0x80::byte)) AND 0x80) 7 = bit (0::byte) 7" by simp
  then show False by (simp add: bit_simps bit_128_int)
qed

lemma varu_groups_join:
  "(acc OR push_bit s ((y::u64) AND 0x7F)) OR push_bit (s + 7) (drop_bit 7 y) = acc OR push_bit s y"
proof -
  have a: "\<And>n. \<not> n - s < 7 \<Longrightarrow> 7 + (n - (s + 7)) = n - s" by arith
  show ?thesis
  proof (rule bit_eqI)
    fix n
    show "bit ((acc OR push_bit s (y AND 0x7F)) OR push_bit (s + 7) (drop_bit 7 y)) n = bit (acc OR push_bit s y) n"
      using a[of n] by (cases "n - s < 7") (auto simp: bit_simps bit_127_int)
  qed
qed

lemma varu_last_byte:
  fixes y :: u64
  assumes u: "y < 2 ^ 7"
  shows "(ucast ((ucast y :: byte) AND 0x7F) :: u64) = y" "(ucast y :: byte) AND 0x80 = 0"
proof -
  have hi: "\<And>n. bit y n \<Longrightarrow> n < 7"
  proof -
    fix n assume b: "bit y n"
    from u have "take_bit 7 y = y" by (metis less_mask_eq take_bit_eq_mask)
    with b have "bit (take_bit 7 y) n" by simp
    then show "n < 7" by (simp add: bit_take_bit_iff)
  qed
  show "(ucast y :: byte) AND 0x80 = 0"
    by (rule bit_eqI) (auto simp: bit_simps bit_128_int dest: hi)
  show "(ucast ((ucast y :: byte) AND 0x7F) :: u64) = y"
    by (rule bit_eqI) (auto simp: bit_simps bit_127_int dest: hi)
qed

lemma rd_varu_loop_varu:
  "unat y < 2 ^ (64 - s) \<Longrightarrow> s \<le> 63 \<Longrightarrow>
   rd_varu_loop acc s (varu y @ rest) = Inr (acc OR push_bit s y, rest)"
proof (induction y arbitrary: acc s rule: varu.induct)
  case (1 y)
  show ?case
  proof (cases "y \<ge> 0x80")
    case True
    have v: "varu y = (ucast y OR 0x80) # varu (drop_bit 7 y)" using True by (subst varu.simps) simp
    from True have u: "unat y \<ge> 128" by (simp add: word_le_nat_alt)
    with 1(2) have "(2::nat) ^ 7 < 2 ^ (64 - s)" by simp
    then have "7 < 64 - s" by (simp only: power_strict_increasing_iff)
    then have s: "s + 7 \<le> 63" by simp
    have "64 - s = (64 - (s + 7)) + 7" using s by simp
    then have e: "(2::nat) ^ (64 - s) = 2 ^ (64 - (s + 7)) * 2 ^ 7" by (simp only: power_add)
    have small: "unat (drop_bit 7 y) < 2 ^ (64 - (s + 7))"
      using 1(2) unfolding e by (simp add: unat_drop_bit_eq drop_bit_eq_div unat_div less_mult_imp_div_less)
    have "rd_varu_loop acc s (varu y @ rest)
          = rd_varu_loop (acc OR push_bit s (y AND 0x7F)) (s + 7) (varu (drop_bit 7 y) @ rest)"
      unfolding v using s varu_byte_cont[of y] by (simp add: varu_byte_payload Let_def)
    also have "\<dots> = Inr ((acc OR push_bit s (y AND 0x7F)) OR push_bit (s + 7) (drop_bit 7 y), rest)"
      using 1(1)[OF True small] s by (simp only:)
    finally show ?thesis by (simp only: varu_groups_join)
  next
    case False
    have v: "varu y = [ucast y]" using False by (subst varu.simps) simp
    from False have u: "y < 2 ^ 7" by (simp add: not_le)
    show ?thesis unfolding v by (simp add: varu_last_byte[OF u] Let_def)
  qed
qed

lemma rd_varu_varu: "rd_varu (varu x @ rest) = Inr (x, rest)"
  using rd_varu_loop_varu[of x 0 0 rest] unsigned_less[of x, where 'a=nat] by (simp add: rd_varu_def)

text \<open>
  Claim C4. For every 64-bit \<open>x\<close>, decoding the varint encoding of \<open>x\<close> (followed by any
  bytes) returns \<open>x\<close> and leaves the following bytes, and the encoding has
  \<open>\<lceil>bitlen(x)/7\<rceil>\<close> bytes (\<open>(bitlen x + 6) div 7\<close>), one byte for \<open>x = 0\<close>.
\<close>

theorem varu_round_trip_and_length:
  "rd_varu (varu x @ rest) = Inr (x, rest)
   \<and> length (varu x) = (if x = 0 then 1 else (bitlen (unat x) + 6) div 7)"
  by (simp only: rd_varu_varu varu_length simp_thms)

lemma cont_malformed:
  "\<forall>b\<in>set pre. b AND 0x80 \<noteq> 0 \<Longrightarrow> length pre + k = 10 \<Longrightarrow> k \<le> 9 \<Longrightarrow>
   rd_varu_loop x (7 * k) (pre @ rest) = Inl MalformedVarint"
proof (induction pre arbitrary: x k)
  case Nil then show ?case by simp
next
  case (Cons b pre)
  show ?case
  proof (cases "k = 9")
    case True with Cons.prems show ?thesis by (simp add: Let_def)
  next
    case False
    with Cons.prems have "length pre + Suc k = 10" "Suc k \<le> 9" by auto
    from Cons.IH[OF _ this] Cons.prems(1) have "\<And>x. rd_varu_loop x (7 * k + 7) (pre @ rest) = Inl MalformedVarint" by (simp add: ac_simps)
    with Cons.prems False show ?thesis by (simp add: Let_def)
  qed
qed

lemma cont_eof:
  "\<forall>b\<in>set bs. b AND 0x80 \<noteq> 0 \<Longrightarrow> length bs + k < 10 \<Longrightarrow>
   rd_varu_loop x (7 * k) bs = Inl UnexpectedEOF"
proof (induction bs arbitrary: x k)
  case Nil then show ?case by simp
next
  case (Cons b bs)
  then have "length bs + Suc k < 10" by simp
  from Cons.IH[OF _ this] Cons.prems(1) have "\<And>x. rd_varu_loop x (7 * k + 7) bs = Inl UnexpectedEOF" by (simp add: ac_simps)
  with Cons.prems show ?case by (simp add: Let_def)
qed


text \<open>
  Claim C7. Ten bytes with the continuation bit set make the decoder fail with
  \<open>MalformedVarint\<close> (the shift would pass 63), whatever follows them; a stream that ends
  after fewer than ten bytes, all with the continuation bit set, makes it fail with
  \<open>UnexpectedEOF\<close>. In both cases no value is returned.
\<close>

theorem rd_varu_failures:
  "(length pre = 10 \<and> (\<forall>b\<in>set pre. b AND 0x80 \<noteq> 0) \<longrightarrow> rd_varu (pre @ rest) = Inl MalformedVarint)
   \<and> (length bs < 10 \<and> (\<forall>b\<in>set bs. b AND 0x80 \<noteq> 0) \<longrightarrow> rd_varu bs = Inl UnexpectedEOF)"
  using cont_malformed[of pre 0 0 rest] cont_eof[of bs 0 0] by (simp add: rd_varu_def)

theorem rd_varu_failures_witness:
  "length (replicate 10 (0xFF::byte)) = 10
   \<and> rd_varu (replicate 10 0xFF @ [1]) = Inl MalformedVarint
   \<and> length [0x80, 0x80 :: byte] < 10
   \<and> rd_varu [0x80, 0x80] = Inl UnexpectedEOF"
  using rd_varu_failures[of "replicate 10 0xFF" "[1]" "[0x80, 0x80]"] by simp

section \<open>Fixed-width integers and encoded fields\<close>

lemma and_255: "(x::'a::len word) AND 0xFF = take_bit 8 x"
  by (simp add: take_bit_eq_mask mask_eq_exp_minus_1)

lemma ucast_byte_back: "(ucast (ucast (take_bit 8 (y::'a::len word)) :: byte) :: 'a word) = take_bit 8 y"
  by (rule bit_eqI) (auto simp add: bit_simps)

lemma join_u32:
  "take_bit 8 (x::u32) OR push_bit 8 (take_bit 8 (drop_bit 8 x)) OR push_bit 16 (take_bit 8 (drop_bit 16 x))
     OR push_bit 24 (take_bit 8 (drop_bit 24 x)) = x"
proof (rule bit_eqI)
  fix n assume "possible_bit TYPE(u32) n"
  then have n: "n < 32" by simp
  consider "n < 8" | "8 \<le> n" "n < 16" | "16 \<le> n" "n < 24" | "24 \<le> n" by linarith
  then show "bit (take_bit 8 (x::u32) OR push_bit 8 (take_bit 8 (drop_bit 8 x)) OR push_bit 16 (take_bit 8 (drop_bit 16 x))
     OR push_bit 24 (take_bit 8 (drop_bit 24 x))) n = bit x n"
    using n by cases (auto simp add: bit_simps)
qed

lemma rd_u32le_u32le: "rd_u32le (u32le x @ rest) = Inr (x, rest)"
  using join_u32[of x]
  by (simp add: u32le_def and_255 ucast_byte_back)


lemma u64le_bytes:
  "u64le x = [ucast (take_bit 8 x), ucast (take_bit 8 (drop_bit 8 x)), ucast (take_bit 8 (drop_bit 16 x)),
              ucast (take_bit 8 (drop_bit 24 x)), ucast (take_bit 8 (drop_bit 32 x)),
              ucast (take_bit 8 (drop_bit 40 x)), ucast (take_bit 8 (drop_bit 48 x)),
              ucast (take_bit 8 (drop_bit 56 x))]"
proof -
  have u: "[0..<8] = [0, 1, 2, 3, 4, 5, 6, 7::nat]" by (simp add: upt_rec)
  show ?thesis unfolding u64le_def u by (simp add: and_255)
qed

lemma join_u64:
  "take_bit 8 (x::u64) OR push_bit 8 (take_bit 8 (drop_bit 8 x)) OR push_bit 16 (take_bit 8 (drop_bit 16 x))
     OR push_bit 24 (take_bit 8 (drop_bit 24 x)) OR push_bit 32 (take_bit 8 (drop_bit 32 x))
     OR push_bit 40 (take_bit 8 (drop_bit 40 x)) OR push_bit 48 (take_bit 8 (drop_bit 48 x))
     OR push_bit 56 (take_bit 8 (drop_bit 56 x)) = x"
proof (rule bit_eqI)
  fix n assume "possible_bit TYPE(u64) n"
  then have n: "n < 64" by simp
  consider "n < 8" | "8 \<le> n" "n < 16" | "16 \<le> n" "n < 24" | "24 \<le> n" "n < 32"
    | "32 \<le> n" "n < 40" | "40 \<le> n" "n < 48" | "48 \<le> n" "n < 56" | "56 \<le> n" by linarith
  then show "bit (take_bit 8 (x::u64) OR push_bit 8 (take_bit 8 (drop_bit 8 x)) OR push_bit 16 (take_bit 8 (drop_bit 16 x))
     OR push_bit 24 (take_bit 8 (drop_bit 24 x)) OR push_bit 32 (take_bit 8 (drop_bit 32 x))
     OR push_bit 40 (take_bit 8 (drop_bit 40 x)) OR push_bit 48 (take_bit 8 (drop_bit 48 x))
     OR push_bit 56 (take_bit 8 (drop_bit 56 x))) n = bit x n"
    using n by cases (auto simp add: bit_simps)
qed

lemma rd_u64le_u64le: "rd_u64le (u64le x @ rest) = Inr (x, rest)"
  using join_u64[of x]
  by (simp add: u64le_bytes ucast_byte_back)


lemma rd_varu_varu_end: "rd_varu (varu x) = Inr (x, [])"
  using rd_varu_varu[of x "[]"] by simp

lemma length_u32le [simp]: "length (u32le x) = 4" by (simp add: u32le_def)
lemma length_u64le [simp]: "length (u64le x) = 8" by (simp add: u64le_def)
lemma length_varu_pos: "length (varu x) \<ge> 1" by (subst varu.simps) simp

lemma rd_header_v2: "rd_header (header_v2 @ rest) = Inr (2, rest)"
  by (simp add: rd_header_def header_v2_def)

lemma rd_header_v1: "rd_header (header_v1 @ rest) = Inr (1, rest)"
  by (simp add: rd_header_def header_v1_def)

lemma decode_v2: "12 \<le> length rest \<Longrightarrow> decode mem (header_v2 @ rest) = rd_graph mem 2 rest"
  by (simp add: decode_def rd_header_v2) (simp add: header_v2_def)

lemma decode_v1: "12 \<le> length rest \<Longrightarrow> decode mem (header_v1 @ rest) = rd_graph mem 1 rest"
  by (simp add: decode_def rd_header_v1) (simp add: header_v1_def)

lemma rd_counts_v2: "rd_counts 2 (varu n @ varu M @ rest) = Inr (ucast n, M, rest)"
  by (simp add: rd_counts_def rd_varu_varu)

lemma rd_counts_v1: "rd_counts 1 (u32le N @ u64le M @ rest) = Inr (N, M, rest)"
  by (simp add: rd_counts_def rd_u32le_u32le rd_u64le_u64le)


lemma rd_mapping_v1_numeral:
  "rd_mapping_v1 (numeral k) bs = rd_mapping_v1 (Suc (pred_numeral k)) bs"
  by (simp only: numeral_eq_Suc)

lemma rd_deltas_numeral:
  "rd_deltas (numeral k) prev bs = rd_deltas (Suc (pred_numeral k)) prev bs"
  by (simp only: numeral_eq_Suc)

lemma adj_entries_numeral:
  "adj_entries mem orig_of i prev (numeral k) bs = adj_entries mem orig_of i prev (Suc (pred_numeral k)) bs"
  by (simp only: numeral_eq_Suc)

lemma adj_vertices_numeral:
  "adj_vertices mem orig_of i (numeral k) bs = adj_vertices mem orig_of i (Suc (pred_numeral k)) bs"
  by (simp only: numeral_eq_Suc)

lemma loop_entries_numeral:
  "loop_entries mem orig_of acc (numeral k) bs = loop_entries mem orig_of acc (Suc (pred_numeral k)) bs"
  by (simp only: numeral_eq_Suc)

lemma rd_records_numeral:
  "rd_records prev (numeral k) bs = rd_records prev (Suc (pred_numeral k)) bs"
  by (simp only: numeral_eq_Suc)

lemma rd_adjacency_numeral:
  "rd_adjacency i (numeral k) bs = rd_adjacency i (Suc (pred_numeral k)) bs"
  by (simp only: numeral_eq_Suc)

lemmas rd_numeral = rd_mapping_v1_numeral rd_deltas_numeral adj_entries_numeral
  adj_vertices_numeral loop_entries_numeral rd_records_numeral rd_adjacency_numeral

lemmas rd_back = rd_varu_varu rd_varu_varu_end rd_u32le_u32le rd_u64le_u64le


lemma varu_small: "x < 0x80 \<Longrightarrow> varu x = [ucast x]"
proof -
  assume "x < 0x80"
  then have "\<not> 0x80 \<le> x" by (simp add: not_le)
  then show ?thesis by (subst varu.simps) simp
qed

lemma varu_big:
  "varu 0x100000001 = [0x81, 0x80, 0x80, 0x80, 0x10]"
  "varu 0x100000000 = [0x80, 0x80, 0x80, 0x80, 0x10]"
  "varu 16384 = [0x80, 0x80, 0x01]"
  by code_simp+

lemma put_line_10_20_5: "put_line (10, 20, 5) = ''10'' @ [TAB] @ ''20'' @ [TAB] @ ''5'' @ [NL]"
  by code_simp

lemma put_line_7_7_255: "put_line (7, 7, 255) = ''7'' @ [TAB] @ ''7'' @ [TAB] @ ''255'' @ [NL]"
  by code_simp

lemmas rd_eval = rd_graph_def rd_counts_v1 rd_counts_v2 rd_mapping_v2_def rd_sections_def
  rd_entry_def fetch_def rd_back rd_numeral


section \<open>Sorting and the evaluation of small inputs\<close>

lemma mset_std_sort [simp]: "mset (std_sort tie xs) = mset xs"
  by (simp add: std_sort_def)

lemma length_std_sort [simp]: "length (std_sort tie xs) = length xs"
  using mset_std_sort[of tie xs] by (metis size_mset)

lemma set_std_sort [simp]: "set (std_sort tie xs) = set xs"
  using mset_std_sort[of tie xs] by (metis set_mset_mset)

lemma sorted_std_sort: "sorted (map fst (std_sort tie xs))"
  by (simp add: std_sort_def)

lemma std_sort_valid:
  "mset (tie xs) = mset xs \<Longrightarrow> sorted (map fst (tie xs)) \<Longrightarrow> std_sort tie xs = tie xs"
  by (simp add: std_sort_def)

lemma std_sort_short: "length xs \<le> 1 \<Longrightarrow> std_sort tie xs = xs"
proof (cases xs)
  case Nil
  then show ?thesis by (simp add: std_sort_def)
next
  case (Cons x ys)
  assume "length xs \<le> 1"
  with Cons have xs: "xs = [x]" by simp
  show ?thesis unfolding xs std_sort_def by auto
qed

lemma build_unfold:
  assumes u: "uniq_of (all_ids ts) = uq"
    and p2: "pass2 uq ts (replicate (length uq) 0, 0, 0) = Inr (deg_plus, M, lc)"
    and ps: "prefix_sums 0 deg_plus = offs"
    and p3: "pass3 uq ts (offs, replicate (offs ! length uq) 0, replicate (offs ! length uq) 0, [])
             = Inr (cur, nei, wts, lps)"
  shows "build tie ts = Inr \<lparr>uniq = uq, off = offs,
           upper_nei = fst (fold (sort_vertex tie offs) [0..<length uq] (nei, wts)),
           upper_w = snd (fold (sort_vertex tie offs) [0..<length uq] (nei, wts)),
           loops = std_sort tie lps, M_noLoops = M\<rparr>"
  using assms by (simp add: build_def Let_def split: prod.splits)

text \<open>
  The inputs \<open>10\t20\t5\n\<close> and \<open>7\t7\t255\n\<close>: no list of two or more entries is sorted, so
  the output does not depend on \<open>tie\<close>.
\<close>

lemma build_single_edge:
  "build tie [(10, 20, 5)]
   = Inr \<lparr>uniq = [10, 20], off = [0, 1, 1], upper_nei = [1], upper_w = [5], loops = [],
          M_noLoops = 1\<rparr>"
proof -
  have u: "uniq_of (all_ids [(10, 20, 5)]) = [10, 20]" by code_simp
  have p2: "pass2 [10, 20] [(10, 20, 5)] (replicate (length [10, 20 :: u32]) 0, 0, 0)
            = Inr ([1, 0], 1, 0)" by code_simp
  have ps: "prefix_sums 0 [1, 0] = [0, 1, 1]" by code_simp
  have p3: "pass3 [10, 20] [(10, 20, 5)]
              ([0, 1, 1], replicate ([0, 1, 1] ! length [10, 20 :: u32]) 0,
               replicate ([0, 1, 1] ! length [10, 20 :: u32]) 0, [])
            = Inr ([1, 1, 1], [1], [5], [])" by code_simp
  show ?thesis
    unfolding build_unfold[OF u p2 ps p3]
    by (simp add: sort_vertex_def std_sort_short upt_rec)
qed

lemma build_self_loop:
  "build tie [(7, 7, 255)]
   = Inr \<lparr>uniq = [7], off = [0, 0], upper_nei = [], upper_w = [], loops = [(0, 255)],
          M_noLoops = 0\<rparr>"
proof -
  have u: "uniq_of (all_ids [(7, 7, 255)]) = [7]" by code_simp
  have p2: "pass2 [7] [(7, 7, 255)] (replicate (length [7 :: u32]) 0, 0, 0)
            = Inr ([0], 0, 1)" by code_simp
  have ps: "prefix_sums 0 [0] = [0, 0]" by code_simp
  have p3: "pass3 [7] [(7, 7, 255)]
              ([0, 0], replicate ([0, 0] ! length [7 :: u32]) 0,
               replicate ([0, 0] ! length [7 :: u32]) 0, [])
            = Inr ([0, 0], [], [], [(0, 255)])" by code_simp
  show ?thesis
    unfolding build_unfold[OF u p2 ps p3]
    by (simp add: sort_vertex_def std_sort_short upt_rec)
qed

lemma serialize_single_edge:
  "Serializer_run tie (''10'' @ [TAB] @ ''20'' @ [TAB] @ ''5'' @ [NL])
     = Inr (header_v2 @ varu 2 @ varu 1 @ u32le 10 @ varu 10
            @ (varu 1 @ varu 1 @ [5]) @ varu 0 @ varu 0)"
proof -
  have p: "for_each_triplet (''10'' @ [TAB] @ ''20'' @ [TAB] @ ''5'' @ [NL]) = Inr [(10, 20, 5)]"
    by code_simp
  have e: "emit \<lparr>uniq = [10, 20], off = [0, 1, 1], upper_nei = [1], upper_w = [5], loops = [],
                 M_noLoops = 1\<rparr>
           = header_v2 @ varu 2 @ varu 1 @ u32le 10 @ varu 10
             @ (varu 1 @ varu 1 @ [5]) @ varu 0 @ varu 0"
    by code_simp
  show ?thesis
    unfolding Serializer_run_def p sum.case build_single_edge e by simp
qed

lemma serialize_self_loop:
  "Serializer_run tie (''7'' @ [TAB] @ ''7'' @ [TAB] @ ''255'' @ [NL])
     = Inr (header_v2 @ varu 1 @ varu 1 @ u32le 7 @ (varu 0 @ varu 1 @ varu 0 @ [255]))"
proof -
  have p: "for_each_triplet (''7'' @ [TAB] @ ''7'' @ [TAB] @ ''255'' @ [NL]) = Inr [(7, 7, 255)]"
    by code_simp
  have e: "emit \<lparr>uniq = [7], off = [0, 0], upper_nei = [], upper_w = [], loops = [(0, 255)],
                 M_noLoops = 0\<rparr>
           = header_v2 @ varu 1 @ varu 1 @ u32le 7 @ (varu 0 @ varu 1 @ varu 0 @ [255])"
    by code_simp
  show ?thesis
    unfolding Serializer_run_def p sum.case build_self_loop e by simp
qed


section \<open>Scenarios\<close>

text \<open>
  Claim C3. The zero-byte input serializes to the eight bytes \<open>47 52 50 48 02 01 00 00\<close>.
  The deserializer does not turn these eight bytes into empty text: it stops with
  "binary too small".
\<close>

theorem empty_input_binary_not_decodable:
  "Serializer_run tie [] = Inr [0x47, 0x52, 0x50, 0x48, 0x02, 0x01, 0x00, 0x00]
   \<and> Deserializer_run mem [0x47, 0x52, 0x50, 0x48, 0x02, 0x01, 0x00, 0x00] = Inl BinaryTooSmall"
  by code_simp

text \<open>
  Claim C8. The input \<open>10\t20\t5\n\<close> serializes to the header followed by \<open>varu(2)\<close>,
  \<open>varu(1)\<close>, \<open>u32_le(10)\<close>, \<open>varu(10)\<close>, the adjacency (vertex 0: degree 1, gap 1,
  weight 5; vertex 1: degree 0) and \<open>L = 0\<close>; these are 18 bytes, and they deserialize to
  \<open>10\t20\t5\n\<close>.
\<close>

theorem single_edge_scenario:
  "Serializer_run tie (''10'' @ [TAB] @ ''20'' @ [TAB] @ ''5'' @ [NL])
     = Inr (header_v2 @ varu 2 @ varu 1 @ u32le 10 @ varu 10
            @ (varu 1 @ varu 1 @ [5]) @ varu 0 @ varu 0)
   \<and> header_v2 @ varu 2 @ varu 1 @ u32le 10 @ varu 10 @ (varu 1 @ varu 1 @ [5]) @ varu 0 @ varu 0
     = [0x47, 0x52, 0x50, 0x48, 0x02, 0x01, 0x02, 0x01, 0x0A, 0x00, 0x00, 0x00, 0x0A,
        0x01, 0x01, 0x05, 0x00, 0x00]
   \<and> Deserializer_run mem [0x47, 0x52, 0x50, 0x48, 0x02, 0x01, 0x02, 0x01, 0x0A, 0x00, 0x00, 0x00, 0x0A,
        0x01, 0x01, 0x05, 0x00, 0x00]
     = Inr (''10'' @ [TAB] @ ''20'' @ [TAB] @ ''5'' @ [NL])"
proof (intro conjI)
  show "Serializer_run tie (''10'' @ [TAB] @ ''20'' @ [TAB] @ ''5'' @ [NL])
     = Inr (header_v2 @ varu 2 @ varu 1 @ u32le 10 @ varu 10
            @ (varu 1 @ varu 1 @ [5]) @ varu 0 @ varu 0)"
    by (rule serialize_single_edge)
qed code_simp+

section \<open>The minimum-size check\<close>

text \<open>
  Claim C10. Every input shorter than 18 bytes is rejected with "binary too small",
  whatever its bytes are; the nine-byte version-2 encoding of the empty graph
  (\<open>N = 0\<close>, \<open>M = 0\<close>, \<open>L = 0\<close>) is such an input.
\<close>

theorem binary_too_small:
  "length data < 18 \<Longrightarrow> Deserializer_run mem data = Inl BinaryTooSmall"
  by (simp add: Deserializer_run_def decode_def)

theorem binary_too_small_witness:
  "length [0x47, 0x52, 0x50, 0x48, 2, 1, 0, 0, 0 :: byte] < 18
   \<and> Deserializer_run (\<lambda>j. None) [0x47, 0x52, 0x50, 0x48, 2, 1, 0, 0, 0] = Inl BinaryTooSmall"
  using binary_too_small[of "[0x47, 0x52, 0x50, 0x48, 2, 1, 0, 0, 0]" "\<lambda>j. None"] by simp


text \<open>
  Claim C1. The round trip fails on the one-line input \<open>7\t7\t255\n\<close> (a single
  self-loop): the serializer writes 16 bytes, and the deserializer rejects every input
  shorter than 18 bytes, so no output text exists whose edges could be compared.
\<close>

theorem self_loop_round_trip_fails:
  "Serializer_run tie (''7'' @ [TAB] @ ''7'' @ [TAB] @ ''255'' @ [NL])
     = Inr [0x47, 0x52, 0x50, 0x48, 2, 1, 1, 1, 7, 0, 0, 0, 0, 1, 0, 255]
   \<and> Deserializer_run mem [0x47, 0x52, 0x50, 0x48, 2, 1, 1, 1, 7, 0, 0, 0, 0, 1, 0, 255]
     = Inl BinaryTooSmall"
proof -
  have b: "header_v2 @ varu 1 @ varu 1 @ u32le 7 @ (varu 0 @ varu 1 @ varu 0 @ [255])
           = [0x47, 0x52, 0x50, 0x48, 2, 1, 1, 1, 7, 0, 0, 0, 0, 1, 0, 255]"
    by code_simp
  show ?thesis
    using serialize_self_loop[of tie] unfolding b
    by (simp add: Deserializer_run_def decode_def)
qed

text \<open>
  Claim C5. For the graph with the single self-loop \<open>(7, 7, 255)\<close> the version-1 binary
  (26 bytes) deserializes to \<open>7\t7\t255\n\<close>, while the version-2 binary that the
  serializer writes for the same graph (16 bytes) is rejected with "binary too small".
\<close>

theorem cross_version_self_loop_differs:
  "Deserializer_run mem (header_v1 @ u32le 1 @ u64le 1 @ u32le 7 @ (varu 0 @ varu 1 @ varu 0 @ [255]))
     = Inr (''7'' @ [TAB] @ ''7'' @ [TAB] @ ''255'' @ [NL])
   \<and> Serializer_run tie (''7'' @ [TAB] @ ''7'' @ [TAB] @ ''255'' @ [NL])
     = Inr (header_v2 @ varu 1 @ varu 1 @ u32le 7 @ (varu 0 @ varu 1 @ varu 0 @ [255]))
   \<and> Deserializer_run mem (header_v2 @ varu 1 @ varu 1 @ u32le 7 @ (varu 0 @ varu 1 @ varu 0 @ [255]))
     = Inl BinaryTooSmall"
proof -
  have a: "decode mem (header_v1 @ u32le 1 @ u64le 1 @ u32le 7 @ (varu 0 @ varu 1 @ varu 0 @ [255]))
           = Inr ([7], [(7, 7, 255)])"
  proof (subst decode_v1)
    show "12 \<le> length (u32le 1 @ u64le 1 @ u32le 7 @ (varu 0 @ varu 1 @ varu 0 @ [255]))"
      by simp
  qed (simp add: rd_eval)
  have b: "Serializer_run tie (''7'' @ [TAB] @ ''7'' @ [TAB] @ ''255'' @ [NL])
     = Inr (header_v2 @ varu 1 @ varu 1 @ u32le 7 @ (varu 0 @ varu 1 @ varu 0 @ [255]))"
    by (rule serialize_self_loop)
  have c: "Deserializer_run mem (header_v2 @ varu 1 @ varu 1 @ u32le 7 @ (varu 0 @ varu 1 @ varu 0 @ [255]))
     = Inl BinaryTooSmall"
    by (simp add: Deserializer_run_def decode_def header_v2_def varu_small)
  show ?thesis
    by (simp only: b c simp_thms) (simp only: Deserializer_run_def a, simp add: put_line_7_7_255)
qed


text \<open>
  Claim C9. Two version-2 binaries that differ in the \<open>M\<close> field only (\<open>M = 1\<close>, one
  byte, against \<open>M = 16384\<close>, three bytes): the first has 16 bytes and is rejected, the
  second has 18 bytes and deserializes to \<open>7\t7\t255\n\<close>.
\<close>

theorem M_total_changes_outcome:
  "Deserializer_run mem (header_v2 @ varu 1 @ varu 1 @ u32le 7 @ (varu 0 @ varu 1 @ varu 0 @ [255]))
     = Inl BinaryTooSmall
   \<and> Deserializer_run mem (header_v2 @ varu 1 @ varu 16384 @ u32le 7 @ (varu 0 @ varu 1 @ varu 0 @ [255]))
     = Inr (''7'' @ [TAB] @ ''7'' @ [TAB] @ ''255'' @ [NL])"
proof -
  have l: "length (varu 16384) = 3" by (simp add: varu_big)
  have a: "decode mem (header_v2 @ varu 1 @ varu 16384 @ u32le 7 @ (varu 0 @ varu 1 @ varu 0 @ [255]))
           = Inr ([7], [(7, 7, 255)])"
  proof (subst decode_v2)
    show "12 \<le> length (varu 1 @ varu 16384 @ u32le 7 @ (varu 0 @ varu 1 @ varu 0 @ [255]))"
      by (simp add: varu_small l)
  qed (simp add: rd_eval)
  have c: "Deserializer_run mem (header_v2 @ varu 1 @ varu 1 @ u32le 7 @ (varu 0 @ varu 1 @ varu 0 @ [255]))
     = Inl BinaryTooSmall"
    by (simp add: Deserializer_run_def decode_def header_v2_def varu_small)
  show ?thesis
    by (simp only: c simp_thms) (simp only: Deserializer_run_def a, simp add: put_line_7_7_255)
qed


section \<open>Indices out of range\<close>

text \<open>
  Claim C2. The deserializer has no error for a corrupt adjacency or loop section and
  compares no index with \<open>N\<close>. Four binaries, each rejected according to the claim, none
  rejected by the program:

  \<^item> \<open>N = 2\<close>, vertex 0 with the gap \<open>2^32 + 1\<close>: the sum passes \<open>u32::MAX\<close>; the gap is cut to
    32 bits and the line for \<open>j = 1\<close> is written.
  \<^item> \<open>N = 1\<close>, a loop with the delta \<open>2^32\<close>: the line for \<open>v = 0\<close> is written.
  \<^item> \<open>N = 2\<close>, vertex 0 with the gap \<open>5\<close>: \<open>j = 5 \<ge> N\<close>; \<open>orig_of[5]\<close> is read behind the
    vector, and the line is written with whatever word lies there, unless the access
    faults.
  \<^item> \<open>N = 2\<close>, a loop with the delta \<open>7\<close>: \<open>v = 7 \<ge> N\<close>; the same with \<open>orig_of[7]\<close>.
\<close>

theorem index_out_of_range_not_rejected:
  "Deserializer_run mem (header_v2 @ varu 2 @ varu 1 @ u32le 10 @ varu 10
                     @ (varu 1 @ varu 0x100000001 @ [5]) @ varu 0 @ varu 0)
     = Inr (''10'' @ [TAB] @ ''20'' @ [TAB] @ ''5'' @ [NL])
   \<and> Deserializer_run mem (header_v2 @ varu 1 @ varu 1 @ u32le 7
                     @ varu 0 @ varu 1 @ (varu 0x100000000 @ [255]))
     = Inr (''7'' @ [TAB] @ ''7'' @ [TAB] @ ''255'' @ [NL])
   \<and> Deserializer_run mem (header_v2 @ varu 2 @ varu 1 @ u32le 10 @ varu 10
                     @ (varu 1 @ varu 5 @ [5]) @ varu 0 @ varu 0)
     = (case mem 5 of None \<Rightarrow> Inl AccessFault | Some x \<Rightarrow> Inr (put_line (10, x, 5)))
   \<and> Deserializer_run mem (header_v2 @ varu 2 @ varu 0 @ u32le 10 @ varu 10
                     @ varu 0 @ varu 0 @ varu 1 @ (varu 7 @ [9]))
     = (case mem 7 of None \<Rightarrow> Inl AccessFault | Some x \<Rightarrow> Inr (put_line (x, x, 9)))"
proof -
  have a: "decode mem (header_v2 @ varu 2 @ varu 1 @ u32le 10 @ varu 10
                     @ (varu 1 @ varu 0x100000001 @ [5]) @ varu 0 @ varu 0)
           = Inr ([10, 20], [(10, 20, 5)])"
  proof (subst decode_v2)
    show "12 \<le> length (varu 2 @ varu 1 @ u32le 10 @ varu 10
                     @ (varu 1 @ varu 0x100000001 @ [5]) @ varu 0 @ varu 0)"
      by (simp add: varu_small varu_big)
  qed (simp add: rd_eval)
  have b: "decode mem (header_v2 @ varu 1 @ varu 1 @ u32le 7
                     @ varu 0 @ varu 1 @ (varu 0x100000000 @ [255]))
           = Inr ([7], [(7, 7, 255)])"
  proof (subst decode_v2)
    show "12 \<le> length (varu 1 @ varu 1 @ u32le 7
                     @ varu 0 @ varu 1 @ (varu 0x100000000 @ [255]))"
      by (simp add: varu_small varu_big)
  qed (simp add: rd_eval)
  have c: "decode mem (header_v2 @ varu 2 @ varu 1 @ u32le 10 @ varu 10
                     @ (varu 1 @ varu 5 @ [5]) @ varu 0 @ varu 0)
           = (case mem 5 of None \<Rightarrow> Inl AccessFault | Some x \<Rightarrow> Inr ([10, 20], [(10, x, 5)]))"
  proof (subst decode_v2)
    show "12 \<le> length (varu 2 @ varu 1 @ u32le 10 @ varu 10
                     @ (varu 1 @ varu 5 @ [5]) @ varu 0 @ varu 0)"
      by (simp add: varu_small)
  qed (simp add: rd_eval split: option.splits)
  have d: "decode mem (header_v2 @ varu 2 @ varu 0 @ u32le 10 @ varu 10
                     @ varu 0 @ varu 0 @ varu 1 @ (varu 7 @ [9]))
           = (case mem 7 of None \<Rightarrow> Inl AccessFault | Some x \<Rightarrow> Inr ([10, 20], [(x, x, 9)]))"
  proof (subst decode_v2)
    show "12 \<le> length (varu 2 @ varu 0 @ u32le 10 @ varu 10
                     @ varu 0 @ varu 0 @ varu 1 @ (varu 7 @ [9]))"
      by (simp add: varu_small)
  qed (simp add: rd_eval split: option.splits)
  show ?thesis
    by (simp only: Deserializer_run_def a b c d)
       (simp add: put_line_10_20_5 put_line_7_7_255 split: option.splits)
qed


section \<open>The arrays of the serializer\<close>

lemma length_segment: "e \<le> length xs \<Longrightarrow> length (segment b e xs) = e - b"
  by (simp add: segment_def)

lemma nth_segment: "i < e - b \<Longrightarrow> e \<le> length xs \<Longrightarrow> segment b e xs ! i = xs ! (b + i)"
  by (simp add: segment_def)

lemma segment_alt: "segment b e xs = drop b (take e xs)"
  by (simp add: segment_def drop_take)

lemma segment_update_outside:
  "pos < b \<or> e \<le> pos \<Longrightarrow> segment b e (xs[pos := v]) = segment b e xs"
proof (cases "e \<le> pos")
  case True
  then show ?thesis by (simp add: segment_alt)
next
  case False
  assume "pos < b \<or> e \<le> pos"
  with False have "pos < b" by simp
  then show ?thesis by (simp add: segment_alt take_update_swap)
qed

lemma segment_update_end:
  "b \<le> pos \<Longrightarrow> pos < length xs \<Longrightarrow> segment b (Suc pos) (xs[pos := v]) = segment b pos xs @ [v]"
proof -
  assume a: "b \<le> pos" "pos < length xs"
  have "take (Suc pos - b) (drop b (xs[pos := v])) = take (Suc (pos - b)) ((drop b xs)[pos - b := v])"
    using a by (simp add: drop_update_swap Suc_diff_le)
  also have "\<dots> = take (pos - b) (drop b xs) @ [v]"
    using a by (simp add: take_Suc_conv_app_nth)
  finally show ?thesis by (simp add: segment_def)
qed

lemma segment_empty [simp]: "segment b b xs = []"
  by (simp add: segment_def)

lemma length_write_at [simp]: "length (write_at b ys xs) = length xs"
  by (induction ys arbitrary: b xs) auto

lemma write_at_eq:
  "b + length ys \<le> length xs \<Longrightarrow> write_at b ys xs = take b xs @ ys @ drop (b + length ys) xs"
proof (induction ys arbitrary: b xs)
  case Nil
  then show ?case by simp
next
  case (Cons y ys)
  then have b: "b < length xs" by simp
  have "write_at b (y # ys) xs = write_at (Suc b) ys (xs[b := y])" by simp
  also have "\<dots> = take (Suc b) (xs[b := y]) @ ys @ drop (Suc b + length ys) (xs[b := y])"
    using Cons.prems by (intro Cons.IH) simp
  also have "take (Suc b) (xs[b := y]) = take b xs @ [y]"
    using b by (simp add: take_Suc_conv_app_nth)
  also have "drop (Suc b + length ys) (xs[b := y]) = drop (b + length (y # ys)) xs"
    by simp
  finally show ?case by simp
qed

lemma segment_write_at_same:
  "b + length ys \<le> length xs \<Longrightarrow> segment b (b + length ys) (write_at b ys xs) = ys"
  by (simp add: write_at_eq segment_def)

lemma segment_write_at_outside:
  assumes "b + length ys \<le> length xs" "e' \<le> b \<or> b + length ys \<le> b'"
  shows "segment b' e' (write_at b ys xs) = segment b' e' xs"
proof (cases "e' \<le> b")
  case True
  then show ?thesis using assms(1) by (simp add: write_at_eq segment_alt)
next
  case False
  with assms have h: "b + length ys \<le> b'" by simp
  have "drop b' (take b xs @ ys @ drop (b + length ys) xs) = drop b' xs"
    using h assms(1) by (simp add: min_def)
  then show ?thesis using assms(1) by (simp add: write_at_eq segment_def)
qed

lemma length_prefix_sums [simp]: "length (prefix_sums acc ds) = Suc (length ds)"
  by (induction ds arbitrary: acc) auto

lemma prefix_sums_0 [simp]: "prefix_sums acc ds ! 0 = acc"
  by (cases ds) auto

lemma prefix_sums_Suc:
  "i < length ds \<Longrightarrow> prefix_sums acc ds ! Suc i = prefix_sums acc ds ! i + ds ! i"
proof (induction ds arbitrary: acc i)
  case Nil
  then show ?case by simp
next
  case (Cons d ds)
  show ?case
  proof (cases i)
    case 0
    then show ?thesis by simp
  next
    case (Suc j)
    with Cons.prems have "j < length ds" by simp
    from Cons.IH[OF this, of "acc + d"] Suc show ?thesis by simp
  qed
qed

lemma prefix_sums_mono:
  "i \<le> j \<Longrightarrow> j \<le> length ds \<Longrightarrow> prefix_sums acc ds ! i \<le> prefix_sums acc ds ! j"
proof (induction j)
  case 0
  then show ?case by simp
next
  case (Suc j)
  show ?case
  proof (cases "i = Suc j")
    case True
    then show ?thesis by simp
  next
    case False
    with Suc.prems have "i \<le> j" "j \<le> length ds" "j < length ds" by auto
    with Suc.IH prefix_sums_Suc[of j ds acc] show ?thesis by simp
  qed
qed

lemma sorted_remdups_adj_strict: "sorted xs \<Longrightarrow> sorted_wrt (<) (remdups_adj xs)"
proof (induction xs rule: remdups_adj.induct)
  case (3 x y xs)
  show ?case
  proof (cases "x = y")
    case True
    with 3 show ?thesis by simp
  next
    case False
    from "3.prems" have xy: "x \<le> y" and s: "sorted (y # xs)" by auto
    from "3.IH"(2)[OF False s] have ih: "sorted_wrt (<) (remdups_adj (y # xs))" .
    have "\<forall>z \<in> set (remdups_adj (y # xs)). x < z"
    proof
      fix z assume "z \<in> set (remdups_adj (y # xs))"
      then have "z \<in> set (y # xs)" by simp
      with s have "y \<le> z" by auto
      with xy False show "x < z" by simp
    qed
    with ih False show ?thesis by simp
  qed
qed simp_all

lemma uniq_of_strict: "sorted_wrt (<) (uniq_of ids)"
  by (simp add: uniq_of_def sorted_remdups_adj_strict)

lemma set_uniq_of: "set (uniq_of ids) = set ids"
  by (simp add: uniq_of_def)

lemma lower_bound_nth:
  assumes "sorted_wrt (<) uq" "k < length uq"
  shows "lower_bound uq (uq ! k) = k"
proof -
  have "takeWhile (\<lambda>y. y < uq ! k) uq = take k uq"
  proof (rule takeWhile_eq_take_P_nth)
    fix i assume "i < k" "i < length uq"
    with assms show "uq ! i < uq ! k" by (simp add: sorted_wrt_nth_less)
  next
    show "\<not> uq ! k < uq ! k" by simp
  qed
  with assms(2) show ?thesis by (simp add: lower_bound_def)
qed

lemma lower_bound_mem:
  assumes "sorted_wrt (<) uq" "x \<in> set uq"
  shows "lower_bound uq x < length uq \<and> uq ! lower_bound uq x = x"
proof -
  from assms(2) obtain k where k: "k < length uq" "uq ! k = x" by (auto simp: in_set_conv_nth)
  with lower_bound_nth[OF assms(1) k(1)] show ?thesis by simp
qed

lemma length_distinct_u32: "distinct (uq :: u32 list) \<Longrightarrow> length uq \<le> 2 ^ 32"
proof -
  assume "distinct uq"
  then have "length uq = card (set uq)" by (simp add: distinct_card)
  also have "\<dots> \<le> card (UNIV :: u32 set)" by (rule card_mono) auto
  also have "\<dots> = 2 ^ 32" by (simp add: card_word)
  finally show ?thesis .
qed

lemma unat_lb:
  assumes "sorted_wrt (<) uq" "x \<in> set uq"
  shows "unat (lb uq x) = lower_bound uq x"
proof -
  from assms(1) have "distinct uq" by (simp add: strict_sorted_iff)
  then have "length uq \<le> 2 ^ 32" by (rule length_distinct_u32)
  with lower_bound_mem[OF assms] have "lower_bound uq x < 2 ^ 32" by simp
  then show ?thesis by (simp add: lb_def unat_of_nat)
qed

lemma idx_of_mem:
  assumes "sorted_wrt (<) uq" "x \<in> set uq"
  shows "idx_of uq x = Inr (lb uq x)"
  using lower_bound_mem[OF assms] by (simp add: idx_of_def lb_def Let_def)

lemma pass2_fold:
  "sorted_wrt (<) uq \<Longrightarrow> set (all_ids ts) \<subseteq> set uq \<Longrightarrow>
   pass2 uq ts st = Inr (fold step2 (cedges uq ts) st)"
proof (induction ts arbitrary: st)
  case Nil
  then show ?case by (simp add: cedges_def)
next
  case (Cons t ts)
  obtain a b w where t: "t = (a, b, w)" by (cases t) auto
  obtain d M lc where st: "st = (d, M, lc)" by (cases st) auto
  from Cons.prems t have m: "a \<in> set uq" "b \<in> set uq" "set (all_ids ts) \<subseteq> set uq"
    by (auto simp: all_ids_def)
  have ih: "\<And>st. pass2 uq ts st = Inr (fold step2 (cedges uq ts) st)"
    using Cons.IH[OF Cons.prems(1) m(3)] .
  show ?case
    unfolding t st by (simp add: idx_of_mem[OF Cons.prems(1)] m ih cedges_def)
qed

lemma pass3_fold:
  "sorted_wrt (<) uq \<Longrightarrow> set (all_ids ts) \<subseteq> set uq \<Longrightarrow>
   pass3 uq ts st = Inr (fold step3 (cedges uq ts) st)"
proof (induction ts arbitrary: st)
  case Nil
  then show ?case by (simp add: cedges_def)
next
  case (Cons t ts)
  obtain a b w where t: "t = (a, b, w)" by (cases t) auto
  obtain c n ws l where st: "st = (c, n, ws, l)" by (cases st) auto
  from Cons.prems t have m: "a \<in> set uq" "b \<in> set uq" "set (all_ids ts) \<subseteq> set uq"
    by (auto simp: all_ids_def)
  have ih: "\<And>st. pass3 uq ts st = Inr (fold step3 (cedges uq ts) st)"
    using Cons.IH[OF Cons.prems(1) m(3)] .
  show ?case
    unfolding t st by (simp add: idx_of_mem[OF Cons.prems(1)] m ih cedges_def)
qed

lemma bucket_Nil [simp]: "bucket u [] = []"
  by (simp add: bucket_def)

lemma bucket_append [simp]: "bucket u (xs @ ys) = bucket u xs @ bucket u ys"
  by (simp add: bucket_def)

lemma bucket_Cons:
  "bucket u ((ia, ib, w) # es) =
     (if ia \<noteq> ib \<and> unat (min ia ib) = u then (max ia ib, w) # bucket u es else bucket u es)"
  by (simp add: bucket_def)

lemma loops_of_simps [simp]:
  "loops_of [] = []"
  "loops_of (xs @ ys) = loops_of xs @ loops_of ys"
  "loops_of ((ia, ib, w) # es) = (if ia = ib then (ia, w) # loops_of es else loops_of es)"
  by (simp_all add: loops_of_def)

lemma valid_edges_simps [simp]:
  "valid_edges N []"
  "valid_edges N ((ia, ib, w) # es) \<longleftrightarrow> unat ia < N \<and> unat ib < N \<and> valid_edges N es"
  "valid_edges N (xs @ ys) \<longleftrightarrow> valid_edges N xs \<and> valid_edges N ys"
  by (auto simp: valid_edges_def)

lemma unat_min_less: "unat ia < N \<Longrightarrow> unat ib < N \<Longrightarrow> unat (min ia ib) < N"
  by (simp add: min_def)

text \<open>Pass 2 counts the bucket sizes.\<close>

lemma fold_step2_deg:
  "valid_edges (length d) es \<Longrightarrow>
   length (fst (fold step2 es (d, M, lc))) = length d
   \<and> (\<forall>u < length d. fst (fold step2 es (d, M, lc)) ! u = d ! u + length (bucket u es))"
proof (induction es arbitrary: d M lc)
  case Nil
  then show ?case by simp
next
  case (Cons e es)
  obtain ia ib w where e: "e = (ia, ib, w)" by (cases e) auto
  from Cons.prems e have v: "unat ia < length d" "unat ib < length d" "valid_edges (length d) es"
    by auto
  show ?case
  proof (cases "ia = ib")
    case True
    with Cons.IH[OF v(3), of M "lc + 1"] show ?thesis
      unfolding e by (simp add: bucket_Cons)
  next
    case False
    let ?u = "unat (min ia ib)"
    let ?d = "d[?u := d ! ?u + 1]"
    have u: "?u < length d" using v(1,2) by (rule unat_min_less)
    have v': "valid_edges (length ?d) es" using v(3) by simp
    from Cons.IH[OF v', of "M + 1" lc]
    have ih: "length (fst (fold step2 es (?d, M + 1, lc))) = length d"
      "\<And>u. u < length d \<Longrightarrow> fst (fold step2 es (?d, M + 1, lc)) ! u = ?d ! u + length (bucket u es)"
      by auto
    have f: "fold step2 (e # es) (d, M, lc) = fold step2 es (?d, M + 1, lc)"
      unfolding e using False by simp
    show ?thesis
    proof (intro conjI allI impI)
      show "length (fst (fold step2 (e # es) (d, M, lc))) = length d"
        unfolding f by (rule ih(1))
    next
      fix u' assume u': "u' < length d"
      have "fst (fold step2 (e # es) (d, M, lc)) ! u' = ?d ! u' + length (bucket u' es)"
        unfolding f by (rule ih(2)[OF u'])
      also have "\<dots> = d ! u' + length (bucket u' (e # es))"
        unfolding e using False u u' by (cases "u' = ?u") (auto simp: bucket_Cons)
      finally show "fst (fold step2 (e # es) (d, M, lc)) ! u' = d ! u' + length (bucket u' (e # es))" .
    qed
  qed
qed

lemma pass3_inv_step:
  assumes ok: "offsets_ok N offs (p @ (ia, ib, w) # r)"
    and v: "unat ia < N" "unat ib < N"
    and inv: "pass3_inv N offs p st"
  shows "pass3_inv N offs (p @ [(ia, ib, w)]) (step3 (ia, ib, w) st)"
proof -
  obtain cur nei wts lps where st: "st = (cur, nei, wts, lps)" by (cases st) auto
  from inv st have len: "length cur = Suc N" "length nei = offs ! N" "length wts = offs ! N"
    and cur: "\<And>u. u < N \<Longrightarrow> cur ! u = offs ! u + length (bucket u p)"
    and sn: "\<And>u. u < N \<Longrightarrow> segment (offs ! u) (cur ! u) nei = map fst (bucket u p)"
    and sw: "\<And>u. u < N \<Longrightarrow> segment (offs ! u) (cur ! u) wts = map snd (bucket u p)"
    and lp: "lps = loops_of p"
    by (auto simp: pass3_inv_def)
  from ok have offS: "\<And>u. u < N \<Longrightarrow> offs ! Suc u = offs ! u + length (bucket u (p @ (ia, ib, w) # r))"
    and mono: "\<And>i j. i \<le> j \<Longrightarrow> j \<le> N \<Longrightarrow> offs ! i \<le> offs ! j"
    by (auto simp: offsets_ok_def)
  show ?thesis
  proof (cases "ia = ib")
    case True
    then show ?thesis
      using inv unfolding st pass3_inv_def by (auto simp: bucket_Cons)
  next
    case False
    let ?u = "unat (min ia ib)"
    let ?pos = "cur ! ?u"
    have u: "?u < N" using v by (rule unat_min_less)
    have bu: "bucket ?u (p @ (ia, ib, w) # r) = bucket ?u p @ (max ia ib, w) # bucket ?u r"
      using False by (simp add: bucket_Cons)
    have pos_lo: "offs ! ?u \<le> ?pos" using cur[OF u] by simp
    have pos_hi: "?pos < offs ! Suc ?u" using cur[OF u] offS[OF u] bu by simp
    have "offs ! Suc ?u \<le> offs ! N" using u by (intro mono) auto
    with pos_hi have pos_len: "?pos < offs ! N" by simp
    have cur_le: "\<And>u'. u' < N \<Longrightarrow> cur ! u' \<le> offs ! Suc u'"
      using cur offS by simp
    have outside: "\<And>u'. u' < N \<Longrightarrow> u' \<noteq> ?u \<Longrightarrow> ?pos < offs ! u' \<or> cur ! u' \<le> ?pos"
    proof -
      fix u' assume u': "u' < N" "u' \<noteq> ?u"
      show "?pos < offs ! u' \<or> cur ! u' \<le> ?pos"
      proof (cases "u' < ?u")
        case True
        then have "offs ! Suc u' \<le> offs ! ?u" using u by (intro mono) auto
        with cur_le[OF u'(1)] pos_lo show ?thesis by simp
      next
        case False
        with u' have "Suc ?u \<le> u'" by simp
        then have "offs ! Suc ?u \<le> offs ! u'" using u' by (intro mono) auto
        with pos_hi show ?thesis by simp
      qed
    qed
    have step: "step3 (ia, ib, w) st
        = (cur[?u := ?pos + 1], nei[?pos := max ia ib], wts[?pos := w], lps)"
      unfolding st using False by simp
    have bo: "\<And>u'. u' \<noteq> ?u \<Longrightarrow> bucket u' (p @ [(ia, ib, w)]) = bucket u' p"
      by (auto simp: bucket_Cons)
    have bs: "bucket ?u (p @ [(ia, ib, w)]) = bucket ?u p @ [(max ia ib, w)]"
      using False by (simp add: bucket_Cons)
    show ?thesis
      unfolding step pass3_inv_def prod.case
    proof (intro conjI allI impI)
      show "length (cur[?u := ?pos + 1]) = Suc N" using len by simp
      show "length (nei[?pos := max ia ib]) = offs ! N" using len by simp
      show "length (wts[?pos := w]) = offs ! N" using len by simp
      show "lps = loops_of (p @ [(ia, ib, w)])" using lp False by simp
    next
      fix u' assume u': "u' < N"
      show "cur[?u := ?pos + 1] ! u' = offs ! u' + length (bucket u' (p @ [(ia, ib, w)]))"
      proof (cases "u' = ?u")
        case True
        then show ?thesis using u len cur[OF u] bs by simp
      next
        case False
        then show ?thesis using cur[OF u'] bo[OF False] by simp
      qed
    next
      fix u' assume u': "u' < N"
      show "segment (offs ! u') (cur[?u := ?pos + 1] ! u') (nei[?pos := max ia ib])
            = map fst (bucket u' (p @ [(ia, ib, w)]))"
      proof (cases "u' = ?u")
        case True
        have "segment (offs ! ?u) (Suc ?pos) (nei[?pos := max ia ib]) = segment (offs ! ?u) ?pos nei @ [max ia ib]"
          using pos_lo pos_len len by (intro segment_update_end) auto
        then show ?thesis using True u len sn[OF u] bs by simp
      next
        case False
        have "segment (offs ! u') (cur ! u') (nei[?pos := max ia ib]) = segment (offs ! u') (cur ! u') nei"
          using outside[OF u' False] by (rule segment_update_outside)
        then show ?thesis using False sn[OF u'] bo[OF False] by simp
      qed
    next
      fix u' assume u': "u' < N"
      show "segment (offs ! u') (cur[?u := ?pos + 1] ! u') (wts[?pos := w])
            = map snd (bucket u' (p @ [(ia, ib, w)]))"
      proof (cases "u' = ?u")
        case True
        have "segment (offs ! ?u) (Suc ?pos) (wts[?pos := w]) = segment (offs ! ?u) ?pos wts @ [w]"
          using pos_lo pos_len len by (intro segment_update_end) auto
        then show ?thesis using True u len sw[OF u] bs by simp
      next
        case False
        have "segment (offs ! u') (cur ! u') (wts[?pos := w]) = segment (offs ! u') (cur ! u') wts"
          using outside[OF u' False] by (rule segment_update_outside)
        then show ?thesis using False sw[OF u'] bo[OF False] by simp
      qed
    qed
  qed
qed

lemma pass3_inv_fold:
  "offsets_ok N offs (p @ r) \<Longrightarrow> valid_edges N r \<Longrightarrow> pass3_inv N offs p st \<Longrightarrow>
   pass3_inv N offs (p @ r) (fold step3 r st)"
proof (induction r arbitrary: p st)
  case Nil
  then show ?case by simp
next
  case (Cons e r)
  obtain ia ib w where e: "e = (ia, ib, w)" by (cases e) auto
  from Cons.prems(2) e have v: "unat ia < N" "unat ib < N" "valid_edges N r" by auto
  have ok: "offsets_ok N offs (p @ (ia, ib, w) # r)" using Cons.prems(1) e by simp
  have i1: "pass3_inv N offs (p @ [(ia, ib, w)]) (step3 (ia, ib, w) st)"
    using ok v(1,2) Cons.prems(3) by (rule pass3_inv_step)
  have ok': "offsets_ok N offs ((p @ [(ia, ib, w)]) @ r)" using ok by simp
  from Cons.IH[OF ok' v(3) i1] show ?case unfolding e by simp
qed

lemma pass3_inv_init:
  "offsets_ok N offs es \<Longrightarrow>
   pass3_inv N offs [] (offs, replicate (offs ! N) 0, replicate (offs ! N) 0, [])"
  by (simp add: pass3_inv_def offsets_ok_def)

lemma sort_inv_step:
  assumes ok: "offsets_ok N offs es" and k: "k < N" and inv: "sort_inv tie N offs es k st"
  shows "sort_inv tie N offs es (Suc k) (sort_vertex tie offs k st)"
proof -
  obtain nei wts where st: "st = (nei, wts)" by (cases st) auto
  from inv st have len: "length nei = offs ! N" "length wts = offs ! N"
    and sn: "\<And>u. u < N \<Longrightarrow> segment (offs ! u) (offs ! Suc u) nei
                = map fst (if u < k then std_sort tie (bucket u es) else bucket u es)"
    and sw: "\<And>u. u < N \<Longrightarrow> segment (offs ! u) (offs ! Suc u) wts
                = map snd (if u < k then std_sort tie (bucket u es) else bucket u es)"
    by (auto simp: sort_inv_def)
  from ok have offS: "\<And>u. u < N \<Longrightarrow> offs ! Suc u = offs ! u + length (bucket u es)"
    and mono: "\<And>i j. i \<le> j \<Longrightarrow> j \<le> N \<Longrightarrow> offs ! i \<le> offs ! j"
    by (auto simp: offsets_ok_def)
  let ?b = "offs ! k" and ?e = "offs ! Suc k"
  let ?B = "bucket k es"
  have eb: "?e - ?b = length ?B" "?e = ?b + length ?B" using offS[OF k] by simp_all
  have e_le: "?e \<le> offs ! N" using k by (intro mono) auto
  have zipB: "zip (segment ?b ?e nei) (segment ?b ?e wts) = ?B"
    using sn[OF k] sw[OF k] by (simp add: zip_map_fst_snd)
  show ?thesis
  proof (cases "?e - ?b \<le> 1")
    case True
    then have sv: "sort_vertex tie offs k st = (nei, wts)"
      unfolding st by (simp add: sort_vertex_def Let_def)
    from True eb have sk: "std_sort tie ?B = ?B" by (intro std_sort_short) simp
    show ?thesis
      unfolding sv sort_inv_def prod.case
    proof (intro conjI allI impI)
      fix u assume u: "u < N"
      show "segment (offs ! u) (offs ! Suc u) nei
            = map fst (if u < Suc k then std_sort tie (bucket u es) else bucket u es)"
        using sn[OF u] sk by (cases "u = k") auto
      show "segment (offs ! u) (offs ! Suc u) wts
            = map snd (if u < Suc k then std_sort tie (bucket u es) else bucket u es)"
        using sw[OF u] sk by (cases "u = k") auto
    qed (simp_all add: len)
  next
    case False
    let ?tmp = "std_sort tie ?B"
    have sv: "sort_vertex tie offs k st
              = (write_at ?b (map fst ?tmp) nei, write_at ?b (map snd ?tmp) wts)"
      unfolding st using False by (simp add: sort_vertex_def Let_def zipB)
    have fit_n: "?b + length (map fst ?tmp) \<le> length nei" using eb e_le len by simp
    have fit_w: "?b + length (map snd ?tmp) \<le> length wts" using eb e_le len by simp
    have e1: "?e = ?b + length (map fst ?tmp)" and e2: "?e = ?b + length (map snd ?tmp)"
      using eb by simp_all
    have other: "\<And>u. u < N \<Longrightarrow> u \<noteq> k \<Longrightarrow> offs ! Suc u \<le> ?b \<or> ?e \<le> offs ! u"
    proof -
      fix u assume u: "u < N" "u \<noteq> k"
      show "offs ! Suc u \<le> ?b \<or> ?e \<le> offs ! u"
      proof (cases "u < k")
        case True
        then have "offs ! Suc u \<le> offs ! k" using k by (intro mono) auto
        then show ?thesis by simp
      next
        case False
        with u have "Suc k \<le> u" by simp
        then have "offs ! Suc k \<le> offs ! u" using u by (intro mono) auto
        then show ?thesis by simp
      qed
    qed
    show ?thesis
      unfolding sv sort_inv_def prod.case
    proof (intro conjI allI impI)
      fix u assume u: "u < N"
      show "segment (offs ! u) (offs ! Suc u) (write_at ?b (map fst ?tmp) nei)
            = map fst (if u < Suc k then std_sort tie (bucket u es) else bucket u es)"
      proof (cases "u = k")
        case True
        have "segment ?b (?b + length (map fst ?tmp)) (write_at ?b (map fst ?tmp) nei) = map fst ?tmp"
          using fit_n by (rule segment_write_at_same)
        then show ?thesis using True e1 by simp
      next
        case False
        have "segment (offs ! u) (offs ! Suc u) (write_at ?b (map fst ?tmp) nei)
              = segment (offs ! u) (offs ! Suc u) nei"
        proof (rule segment_write_at_outside[OF fit_n])
          show "offs ! Suc u \<le> ?b \<or> ?b + length (map fst ?tmp) \<le> offs ! u"
            using other[OF u False] eb by simp
        qed
        then show ?thesis using sn[OF u] False by auto
      qed
      show "segment (offs ! u) (offs ! Suc u) (write_at ?b (map snd ?tmp) wts)
            = map snd (if u < Suc k then std_sort tie (bucket u es) else bucket u es)"
      proof (cases "u = k")
        case True
        have "segment ?b (?b + length (map snd ?tmp)) (write_at ?b (map snd ?tmp) wts) = map snd ?tmp"
          using fit_w by (rule segment_write_at_same)
        then show ?thesis using True e2 by simp
      next
        case False
        have "segment (offs ! u) (offs ! Suc u) (write_at ?b (map snd ?tmp) wts)
              = segment (offs ! u) (offs ! Suc u) wts"
        proof (rule segment_write_at_outside[OF fit_w])
          show "offs ! Suc u \<le> ?b \<or> ?b + length (map snd ?tmp) \<le> offs ! u"
            using other[OF u False] eb by simp
        qed
        then show ?thesis using sw[OF u] False by auto
      qed
    qed (simp_all add: len)
  qed
qed

lemma sort_inv_fold:
  "offsets_ok N offs es \<Longrightarrow> sort_inv tie N offs es 0 st \<Longrightarrow> k \<le> N \<Longrightarrow>
   sort_inv tie N offs es k (fold (sort_vertex tie offs) [0..<k] st)"
proof (induction k)
  case 0
  then show ?case by simp
next
  case (Suc k)
  then have "sort_inv tie N offs es k (fold (sort_vertex tie offs) [0..<k] st)" by simp
  with Suc.prems have "sort_inv tie N offs es (Suc k) (sort_vertex tie offs k (fold (sort_vertex tie offs) [0..<k] st))"
    by (intro sort_inv_step) auto
  then show ?case by simp
qed

lemma all_ids_mem:
  "(a, b, w) \<in> set ts \<Longrightarrow> a \<in> set (all_ids ts) \<and> b \<in> set (all_ids ts)"
  by (induction ts) (auto simp: all_ids_def)

lemma valid_cedges:
  assumes "sorted_wrt (<) uq" "set (all_ids ts) \<subseteq> set uq"
  shows "valid_edges (length uq) (cedges uq ts)"
  unfolding valid_edges_def cedges_def
proof
  fix e assume "e \<in> set (map (\<lambda>(a, b, w). (lb uq a, lb uq b, w)) ts)"
  then obtain a b w where t: "(a, b, w) \<in> set ts" and e: "e = (lb uq a, lb uq b, w)" by auto
  from all_ids_mem[OF t] assms(2) have m: "a \<in> set uq" "b \<in> set uq" by auto
  from unat_lb[OF assms(1) m(1)] lower_bound_mem[OF assms(1) m(1)]
       unat_lb[OF assms(1) m(2)] lower_bound_mem[OF assms(1) m(2)]
  show "unat (fst e) < length uq \<and> unat (fst (snd e)) < length uq"
    unfolding e by simp
qed

lemma offsets_ok_prefix_sums:
  assumes "length deg = N" "\<And>u. u < N \<Longrightarrow> deg ! u = length (bucket u es)"
  shows "offsets_ok N (prefix_sums 0 deg) es"
  unfolding offsets_ok_def
  using assms by (auto simp: prefix_sums_Suc intro: prefix_sums_mono)

lemma build_shape:
  fixes ts :: "(u32 \<times> u32 \<times> byte) list"
  defines "uq \<equiv> uniq_of (all_ids ts)"
  defines "es \<equiv> cedges uq ts"
  shows "\<exists>g. build tie ts = Inr g \<and> uniq g = uq
           \<and> offsets_ok (length uq) (off g) es
           \<and> sort_inv tie (length uq) (off g) es (length uq) (upper_nei g, upper_w g)
           \<and> loops g = std_sort tie (loops_of es)"
proof -
  let ?N = "length uq"
  have srt: "sorted_wrt (<) uq" unfolding uq_def by (rule uniq_of_strict)
  have sub: "set (all_ids ts) \<subseteq> set uq" unfolding uq_def by (simp add: set_uniq_of)
  have val: "valid_edges ?N es" unfolding es_def using srt sub by (rule valid_cedges)
  obtain deg M lc where f2: "fold step2 es (replicate ?N 0, 0, 0) = (deg, M, lc)"
    by (cases "fold step2 es (replicate ?N 0, 0, 0)") auto
  have p2: "pass2 uq ts (replicate ?N 0, 0, 0) = Inr (deg, M, lc)"
    using pass2_fold[OF srt sub] f2 unfolding es_def by simp
  from fold_step2_deg[of "replicate ?N 0" es 0 0] val f2
  have deg: "length deg = ?N" "\<And>u. u < ?N \<Longrightarrow> deg ! u = length (bucket u es)"
    by auto
  let ?offs = "prefix_sums 0 deg"
  have ok: "offsets_ok ?N ?offs es" using deg by (rule offsets_ok_prefix_sums)
  obtain cur nei wts lps where f3:
    "fold step3 es (?offs, replicate (?offs ! ?N) 0, replicate (?offs ! ?N) 0, []) = (cur, nei, wts, lps)"
    by (cases "fold step3 es (?offs, replicate (?offs ! ?N) 0, replicate (?offs ! ?N) 0, [])") auto
  have p3: "pass3 uq ts (?offs, replicate (?offs ! ?N) 0, replicate (?offs ! ?N) 0, []) = Inr (cur, nei, wts, lps)"
    using pass3_fold[OF srt sub] f3 unfolding es_def by simp
  have "pass3_inv ?N ?offs ([] @ es) (fold step3 es (?offs, replicate (?offs ! ?N) 0, replicate (?offs ! ?N) 0, []))"
    using ok val by (intro pass3_inv_fold pass3_inv_init) auto
  then have i3: "pass3_inv ?N ?offs es (cur, nei, wts, lps)" unfolding f3 by simp
  from ok have offS: "\<And>u. u < ?N \<Longrightarrow> ?offs ! Suc u = ?offs ! u + length (bucket u es)"
    by (auto simp: offsets_ok_def)
  from i3 have s0: "sort_inv tie ?N ?offs es 0 (nei, wts)"
    unfolding pass3_inv_def sort_inv_def prod.case using offS by auto
  obtain nei' wts' where fs: "fold (sort_vertex tie ?offs) [0..<?N] (nei, wts) = (nei', wts')"
    by (cases "fold (sort_vertex tie ?offs) [0..<?N] (nei, wts)") auto
  from sort_inv_fold[OF ok s0, of ?N] have sN: "sort_inv tie ?N ?offs es ?N (nei', wts')"
    unfolding fs by simp
  from i3 have lps: "lps = loops_of es" by (simp add: pass3_inv_def)
  have b: "build tie ts = Inr \<lparr>uniq = uq, off = ?offs, upper_nei = nei', upper_w = wts',
                       loops = std_sort tie lps, M_noLoops = M\<rparr>"
    unfolding build_def Let_def uq_def[symmetric] p2 sum.case prod.case p3 fs by simp
  show ?thesis using b ok sN lps by simp
qed

lemma bucket_above:
  "(v, w) \<in> set (bucket u es) \<Longrightarrow> (word_of_nat u :: u32) < v"
proof -
  assume "(v, w) \<in> set (bucket u es)"
  then obtain ia ib where "ia \<noteq> ib" "unat (min ia ib) = u" "v = max ia ib"
    by (auto simp: bucket_def)
  then have "word_of_nat u = min ia ib" "min ia ib < max ia ib"
    by (auto simp: min_def max_def)
  with \<open>v = max ia ib\<close> show ?thesis by simp
qed

lemma sorted_bucket_segment:
  "sorted ((word_of_nat u :: u32) # map fst (std_sort tie (bucket u es)))
   \<and> list_all (\<lambda>j. word_of_nat u < j) (map fst (std_sort tie (bucket u es)))"
proof -
  have a: "\<forall>v \<in> set (map fst (std_sort tie (bucket u es))). (word_of_nat u :: u32) < v"
    by (auto dest: bucket_above)
  have s: "sorted (map fst (std_sort tie (bucket u es)))" by (rule sorted_std_sort)
  from a have "\<forall>v \<in> set (map fst (std_sort tie (bucket u es))). (word_of_nat u :: u32) \<le> v"
    by (auto intro: less_imp_le)
  with a s show ?thesis by (simp add: list_all_iff)
qed

lemma build_canonical:
  "\<exists>g. build tie ts = Inr g \<and> canonical_arrays g"
proof -
  let ?uq = "uniq_of (all_ids ts)"
  let ?es = "cedges ?uq ts"
  from build_shape[of tie ts] obtain g where g: "build tie ts = Inr g" "uniq g = ?uq"
    "offsets_ok (length ?uq) (off g) ?es"
    "sort_inv tie (length ?uq) (off g) ?es (length ?uq) (upper_nei g, upper_w g)"
    "loops g = std_sort tie (loops_of ?es)"
    by blast
  from g(4) have seg: "\<And>u. u < length ?uq \<Longrightarrow>
      segment (off g ! u) (off g ! Suc u) (upper_nei g) = map fst (std_sort tie (bucket u ?es))"
    by (auto simp: sort_inv_def)
  have 1: "sorted_wrt (<) (uniq g)" unfolding g(2) by (rule uniq_of_strict)
  have 2: "list_all (\<lambda>i. sorted (word_of_nat i # segment (off g ! i) (off g ! (i + 1)) (upper_nei g))
                     \<and> list_all (\<lambda>j. word_of_nat i < j)
                          (segment (off g ! i) (off g ! (i + 1)) (upper_nei g)))
          [0..<length (uniq g)]"
    unfolding list_all_iff g(2)
  proof
    fix i assume "i \<in> set [0..<length ?uq]"
    then have i: "i < length ?uq" by simp
    show "sorted (word_of_nat i # segment (off g ! i) (off g ! (i + 1)) (upper_nei g))
          \<and> (\<forall>j \<in> set (segment (off g ! i) (off g ! (i + 1)) (upper_nei g)). word_of_nat i < j)"
      using sorted_bucket_segment[of i tie ?es] seg[OF i] by (simp add: list_all_iff)
  qed
  have 3: "sorted (0 # map fst (loops g))"
    unfolding g(5) using sorted_std_sort[of tie "loops_of ?es"] by simp
  from 1 2 3 g(1) show ?thesis unfolding canonical_arrays_def by blast
qed

section \<open>Decoding what the serializer writes\<close>

lemma ucast_u32_u64_back: "(ucast (ucast (x::u32) :: u64) :: u32) = x"
  by (rule bit_eqI) (auto simp add: bit_simps)

lemma rd_deltas_put_deltas:
  "rd_deltas (length xs) prev (put_deltas prev xs @ rest) = Inr (xs, rest)"
proof (induction xs arbitrary: prev)
  case Nil
  then show ?case by simp
next
  case (Cons x xs)
  have "prev + ucast (ucast (x - prev) :: u64) = x" by (simp add: ucast_u32_u64_back)
  then show ?case using Cons.IH[of x] by (simp add: rd_varu_varu)
qed

lemma unat_of_nat_u32: "n < 2 ^ 32 \<Longrightarrow> unat (word_of_nat n :: u32) = n"
  using unat_of_nat[of n, where 'a=32] by simp

lemma unat_of_nat_u64: "n < 2 ^ 64 \<Longrightarrow> unat (word_of_nat n :: u64) = n"
  using unat_of_nat[of n, where 'a=64] by simp

lemma rd_mapping_v2_put_mapping:
  assumes "unat N = length uq"
  shows "rd_mapping_v2 N (put_mapping uq @ rest) = Inr (uq, rest)"
proof (cases uq)
  case Nil
  with assms have "N = 0" by (simp add: unat_eq_0)
  with Nil show ?thesis by (simp add: rd_mapping_v2_def put_mapping_def)
next
  case (Cons x xs)
  with assms have u: "unat N - Suc 0 = length xs" by simp
  from Cons assms have "N \<noteq> 0" by auto
  then have pos: "N > 0" by (simp add: word_greater_zero_iff)
  show ?thesis
    unfolding Cons rd_mapping_v2_def put_mapping_def
    using pos by (simp add: u rd_u32le_u32le rd_deltas_put_deltas)
qed

lemma rd_mapping_v1_raw:
  "rd_mapping_v1 (length uq) (concat (map u32le uq) @ rest) = Inr (uq, rest)"
  by (induction uq) (simp_all add: rd_u32le_u32le)

lemma adj_entries_put_gaps:
  assumes "unat i < length orig" "\<forall>e \<in> set es. unat (fst e) < length orig"
  shows "adj_entries mem orig i prev (length es) (put_gaps prev es @ rest)
         = Inr (map (\<lambda>(j, w). (orig ! unat i, orig ! unat j, w)) es, rest)"
  using assms(2)
proof (induction es arbitrary: prev)
  case Nil
  then show ?case by simp
next
  case (Cons e es)
  obtain j w where e: "e = (j, w)" by (cases e) auto
  have bk: "prev + ucast (ucast (j - prev) :: u64) = j" by (simp add: ucast_u32_u64_back)
  from Cons.prems e have j: "unat j < length orig" and r: "\<forall>e \<in> set es. unat (fst e) < length orig"
    by auto
  show ?case
    unfolding e using Cons.IH[OF r, of j] assms(1) j
    by (simp add: rd_entry_def fetch_def rd_varu_varu bk)
qed

lemma loop_entries_put_gaps:
  assumes "\<forall>e \<in> set es. unat (fst e) < length orig"
  shows "loop_entries mem orig acc (length es) (put_gaps acc es @ rest)
         = Inr (map (\<lambda>(v, w). (orig ! unat v, orig ! unat v, w)) es, rest)"
  using assms
proof (induction es arbitrary: acc)
  case Nil
  then show ?case by simp
next
  case (Cons e es)
  obtain v w where e: "e = (v, w)" by (cases e) auto
  have bk: "acc + ucast (ucast (v - acc) :: u64) = v" by (simp add: ucast_u32_u64_back)
  from Cons.prems e have v: "unat v < length orig" and r: "\<forall>e \<in> set es. unat (fst e) < length orig"
    by auto
  show ?case
    unfolding e using Cons.IH[OF r, of v] v
    by (simp add: rd_entry_def fetch_def rd_varu_varu bk)
qed

lemma adj_vertices_put:
  assumes "length orig < 2 ^ 32"
    and "\<And>i. i < length orig \<Longrightarrow> length (V i) < 2 ^ 64"
    and "\<And>i. i < length orig \<Longrightarrow> \<forall>e \<in> set (V i). unat (fst e) < length orig"
  shows "i0 + n \<le> length orig \<Longrightarrow>
         adj_vertices mem orig (word_of_nat i0) n
           (concat (map (\<lambda>i. varu (word_of_nat (length (V i))) @ put_gaps (word_of_nat i) (V i))
                        [i0..<i0 + n]) @ rest)
         = Inr (concat (map (\<lambda>i. map (\<lambda>(j, w). (orig ! i, orig ! unat j, w)) (V i)) [i0..<i0 + n]),
                rest)"
proof (induction n arbitrary: i0)
  case 0
  then show ?case by simp
next
  case (Suc n)
  then have i0: "i0 < length orig" and nx: "Suc i0 + n \<le> length orig" by simp_all
  from i0 assms(1) have ui: "unat (word_of_nat i0 :: u32) = i0" by (intro unat_of_nat_u32) simp
  have ul: "unat (word_of_nat (length (V i0)) :: u64) = length (V i0)"
    using assms(2)[OF i0] by (rule unat_of_nat_u64)
  have up: "[i0..<i0 + Suc n] = i0 # [Suc i0..<Suc i0 + n]" by (simp add: upt_rec)
  have w1: "(word_of_nat i0 :: u32) + 1 = word_of_nat (Suc i0)" by simp
  have ent: "\<And>rest'. adj_entries mem orig (word_of_nat i0) (word_of_nat i0) (length (V i0))
                 (put_gaps (word_of_nat i0) (V i0) @ rest')
             = Inr (map (\<lambda>(j, w). (orig ! i0, orig ! unat j, w)) (V i0), rest')"
    using adj_entries_put_gaps[of "word_of_nat i0" orig "V i0" mem "word_of_nat i0"] ui i0 assms(3)[OF i0]
    by simp
  show ?case
    unfolding up using Suc.IH[OF nx]
    by (simp add: rd_varu_varu ul ent w1 del: of_nat_Suc)
qed

lemma bucket_valid:
  "valid_edges N es \<Longrightarrow> \<forall>e \<in> set (bucket u es). unat (fst e) < N"
  by (auto simp: valid_edges_def bucket_def max_def)

lemma loops_of_valid:
  "valid_edges N es \<Longrightarrow> \<forall>e \<in> set (loops_of es). unat (fst e) < N"
  by (auto simp: valid_edges_def loops_of_def)

lemma length_bucket_le: "length (bucket u es) \<le> length es"
  by (simp add: bucket_def)

lemma length_uniq_of_le: "length (uniq_of (all_ids ts)) \<le> 2 * length ts"
proof -
  have "length (uniq_of (all_ids ts)) \<le> length (all_ids ts)"
    unfolding uniq_of_def using remdups_adj_length[of "sort (all_ids ts)"] by simp
  also have "length (all_ids ts) = 2 * length ts"
    by (induction ts) (auto simp: all_ids_def)
  finally show ?thesis .
qed

lemma put_vertex_bucket:
  assumes ok: "offsets_ok N (off g) es"
    and si: "sort_inv tie N (off g) es N (upper_nei g, upper_w g)"
    and u: "u < N"
  shows "put_vertex g u = varu (word_of_nat (length (std_sort tie (bucket u es))))
                          @ put_gaps (word_of_nat u) (std_sort tie (bucket u es))"
proof -
  from ok u have d: "off g ! (u + 1) - off g ! u = length (bucket u es)"
    by (simp add: offsets_ok_def)
  from si u have "segment (off g ! u) (off g ! (u + 1)) (upper_nei g) = map fst (std_sort tie (bucket u es))"
    "segment (off g ! u) (off g ! (u + 1)) (upper_w g) = map snd (std_sort tie (bucket u es))"
    by (simp_all add: sort_inv_def)
  then have z: "zip (segment (off g ! u) (off g ! (u + 1)) (upper_nei g))
                    (segment (off g ! u) (off g ! (u + 1)) (upper_w g)) = std_sort tie (bucket u es)"
    by (simp add: zip_map_fst_snd)
  show ?thesis unfolding put_vertex_def Let_def z d by simp
qed

lemma decode_emit:
  fixes ts :: "(u32 \<times> u32 \<times> byte) list"
  defines "uq \<equiv> uniq_of (all_ids ts)"
  defines "es \<equiv> cedges uq ts"
  assumes g: "build tie ts = Inr g" and small: "length ts < 2 ^ 31" and big: "18 \<le> length (emit g)"
  shows "decode mem (emit g)
         = Inr (uq, concat (map (\<lambda>i. vertex_lines uq i (std_sort tie (bucket i es))) [0..<length uq])
                    @ loop_lines uq (std_sort tie (loops_of es)))"
proof -
  let ?N = "length uq"
  let ?V = "\<lambda>i. std_sort tie (bucket i es)"
  let ?L = "std_sort tie (loops_of es)"
  from build_shape[of tie ts] g have gu: "uniq g = uq"
    and ok: "offsets_ok ?N (off g) es"
    and si: "sort_inv tie ?N (off g) es ?N (upper_nei g, upper_w g)"
    and lp: "loops g = ?L"
    unfolding uq_def es_def by auto
  have srt: "sorted_wrt (<) uq" unfolding uq_def by (rule uniq_of_strict)
  have sub: "set (all_ids ts) \<subseteq> set uq" unfolding uq_def by (simp add: set_uniq_of)
  have val: "valid_edges ?N es" unfolding es_def using srt sub by (rule valid_cedges)
  have N32: "?N < 2 ^ 32" using length_uniq_of_le[of ts] small unfolding uq_def by simp
  have les: "length es = length ts" by (simp add: es_def cedges_def)
  have V64: "\<And>i. length (?V i) < 2 ^ 64"
  proof -
    fix i
    have "length (?V i) \<le> length ts" using length_bucket_le[of i es] les by simp
    also have "\<dots> < 2 ^ 64" using small by simp
    finally show "length (?V i) < 2 ^ 64" .
  qed
  have Vr: "\<And>i. \<forall>e \<in> set (?V i). unat (fst e) < ?N" using bucket_valid[OF val] by simp
  have Lr: "\<forall>e \<in> set ?L. unat (fst e) < ?N" using loops_of_valid[OF val] by simp
  have "length ?L \<le> length ts" unfolding loops_of_def using les by (simp add: le_trans[OF length_filter_le])
  then have L64: "length ?L < 2 ^ 64" using small by simp
  have uL: "unat (word_of_nat (length ?L) :: u64) = length ?L" using L64 by (rule unat_of_nat_u64)
  have uN: "unat (ucast (ucast (word_of_nat ?N :: u32) :: u64) :: u32) = ?N"
    using N32 by (simp add: ucast_u32_u64_back unat_of_nat_u32)
  have pv: "map (put_vertex g) [0..<?N]
            = map (\<lambda>i. varu (word_of_nat (length (?V i))) @ put_gaps (word_of_nat i) (?V i)) [0..<?N]"
    using put_vertex_bucket[OF ok si] by simp
  define body where "body = varu (ucast (word_of_nat ?N :: u32)) @ varu (word_of_nat (M_noLoops g + length ?L))
      @ put_mapping uq
      @ concat (map (\<lambda>i. varu (word_of_nat (length (?V i))) @ put_gaps (word_of_nat i) (?V i)) [0..<?N])
      @ varu (word_of_nat (length ?L)) @ put_gaps 0 ?L"
  have em: "emit g = header_v2 @ body"
    unfolding emit_def Let_def gu lp pv body_def by simp
  from big em have bl: "12 \<le> length body" by (simp add: header_v2_def)
  have adj: "\<And>rest. adj_vertices mem uq 0 ?N
           (concat (map (\<lambda>i. varu (word_of_nat (length (?V i))) @ put_gaps (word_of_nat i) (?V i)) [0..<?N]) @ rest)
         = Inr (concat (map (\<lambda>i. map (\<lambda>(j, w). (uq ! i, uq ! unat j, w)) (?V i)) [0..<?N]), rest)"
    using adj_vertices_put[of uq ?V 0 ?N, OF N32 V64 Vr] by simp
  have lo: "loop_entries mem uq 0 (length ?L) (put_gaps 0 ?L)
            = Inr (map (\<lambda>(v, w). (uq ! unat v, uq ! unat v, w)) ?L, [])"
    using loop_entries_put_gaps[OF Lr, of mem 0 "[]"] by simp
  have sec: "rd_sections mem uq (ucast (ucast (word_of_nat ?N :: u32) :: u64))
       (concat (map (\<lambda>i. varu (word_of_nat (length (?V i))) @ put_gaps (word_of_nat i) (?V i)) [0..<?N])
        @ varu (word_of_nat (length ?L)) @ put_gaps 0 ?L)
      = Inr (concat (map (\<lambda>i. vertex_lines uq i (?V i)) [0..<?N]) @ loop_lines uq ?L)"
    unfolding rd_sections_def uN adj sum.case prod.case rd_varu_varu uL lo
    by (simp add: vertex_lines_def loop_lines_def)
  have gr: "rd_graph mem 2 body = Inr (uq, concat (map (\<lambda>i. vertex_lines uq i (?V i)) [0..<?N]) @ loop_lines uq ?L)"
    unfolding body_def rd_graph_def rd_counts_v2 sum.case prod.case
    using rd_mapping_v2_put_mapping[OF uN] sec by simp
  show ?thesis unfolding em decode_v2[OF bl] gr ..
qed

section \<open>The canonical shape of the serializer output\<close>

text \<open>
  What \<open>rd_records\<close> decodes is what the deserializer turns into lines, as long as the
  indices are below \<open>N\<close>.
\<close>

lemma adj_entries_records:
  "rd_records prev k bs = Inr (rs, rest) \<Longrightarrow> unat i < length orig
   \<Longrightarrow> \<forall>j \<in> set (indices rs). unat j < length orig
   \<Longrightarrow> adj_entries mem orig i prev k bs
       = Inr (map (\<lambda>(gap, j, w). (orig ! unat i, orig ! unat j, w)) rs, rest)"
proof (induction k arbitrary: prev bs rs)
  case 0
  then show ?case by simp
next
  case (Suc k)
  from Suc.prems(1) obtain gap j w bs2 rs' where
    e: "rd_entry prev bs = Inr (gap, j, w, bs2)" and r: "rd_records j k bs2 = Inr (rs', rest)"
    and rs: "rs = (gap, j, w) # rs'"
    by (auto split: sum.splits prod.splits)
  from Suc.prems(3) rs have j: "unat j < length orig"
    and r': "\<forall>j \<in> set (indices rs'). unat j < length orig"
    by (auto simp: indices_def)
  show ?case
    using Suc.IH[OF r Suc.prems(2) r'] e j Suc.prems(2) unfolding rs
    by (simp add: fetch_def)
qed

lemma loop_entries_records:
  "rd_records acc t bs = Inr (rs, rest)
   \<Longrightarrow> \<forall>v \<in> set (indices rs). unat v < length orig
   \<Longrightarrow> loop_entries mem orig acc t bs
       = Inr (map (\<lambda>(d, v, w). (orig ! unat v, orig ! unat v, w)) rs, rest)"
proof (induction t arbitrary: acc bs rs)
  case 0
  then show ?case by simp
next
  case (Suc t)
  from Suc.prems(1) obtain d v w bs2 rs' where
    e: "rd_entry acc bs = Inr (d, v, w, bs2)" and r: "rd_records v t bs2 = Inr (rs', rest)"
    and rs: "rs = (d, v, w) # rs'"
    by (auto split: sum.splits prod.splits)
  from Suc.prems(2) rs have v: "unat v < length orig"
    and r': "\<forall>v \<in> set (indices rs'). unat v < length orig"
    by (auto simp: indices_def)
  show ?case
    using Suc.IH[OF r r'] e v unfolding rs
    by (simp add: fetch_def)
qed

lemma rd_records_put_gaps:
  "rd_records prev (length es) (put_gaps prev es @ rest) = Inr (records_of prev es, rest)"
proof (induction es arbitrary: prev)
  case Nil
  then show ?case by simp
next
  case (Cons e es)
  obtain j w where e: "e = (j, w)" by (cases e) auto
  have bk: "prev + ucast (ucast (j - prev) :: u64) = j" by (simp add: ucast_u32_u64_back)
  show ?case
    unfolding e using Cons.IH[of j] by (simp add: rd_entry_def rd_varu_varu bk)
qed

lemma length_records_of [simp]: "length (records_of prev es) = length es"
  by (induction es arbitrary: prev) auto

lemma indices_records_of: "indices (records_of prev es) = map fst es"
  by (induction es arbitrary: prev) (auto simp: indices_def)

lemma unat_gap:
  fixes prev j :: u32
  assumes "prev \<le> j"
  shows "unat prev + unat (ucast (j - prev) :: u64) = unat j"
proof -
  have "unat (j - prev) < 2 ^ 32" using unsigned_less[of "j - prev", where 'a=nat] by simp
  then have "unat (j - prev) < 2 ^ 64" by simp
  then have "unat (ucast (j - prev) :: u64) = unat (j - prev)"
    by (simp add: unsigned_ucast_eq take_bit_nat_eq_self)
  also have "\<dots> = unat j - unat prev" using assms by (simp add: unat_sub)
  finally show ?thesis using assms by (simp add: word_le_nat_alt)
qed

lemma exact_gaps_records_of:
  "sorted (prev # map fst es) \<Longrightarrow> \<forall>e \<in> set es. unat (fst e) < N
   \<Longrightarrow> exact_gaps N prev (records_of prev es)"
proof (induction es arbitrary: prev)
  case Nil
  then show ?case by simp
next
  case (Cons e es)
  obtain j w where e: "e = (j, w)" by (cases e) auto
  from Cons.prems e have le: "prev \<le> j" and s: "sorted (j # map fst es)"
    and j: "unat j < N" and r: "\<forall>e \<in> set es. unat (fst e) < N"
    by auto
  show ?case unfolding e using Cons.IH[OF s r] unat_gap[OF le] j by simp
qed

lemma ascending_records_of:
  "sorted (prev # map fst es) \<Longrightarrow> \<forall>e \<in> set es. unat (fst e) < N
   \<Longrightarrow> ascending_records N prev (records_of prev es)"
  by (simp add: ascending_records_def indices_records_of exact_gaps_records_of)

lemma rd_adjacency_put:
  assumes "N < 2 ^ 32"
    and "\<And>i. i < N \<Longrightarrow> length (V i) < 2 ^ 64"
  shows "i0 + n \<le> N \<Longrightarrow>
         rd_adjacency (word_of_nat i0) n
           (concat (map (\<lambda>i. varu (word_of_nat (length (V i))) @ put_gaps (word_of_nat i) (V i))
                        [i0..<i0 + n]) @ rest)
         = Inr (map (\<lambda>i. records_of (word_of_nat i) (V i)) [i0..<i0 + n], rest)"
proof (induction n arbitrary: i0)
  case 0
  then show ?case by simp
next
  case (Suc n)
  then have i0: "i0 < N" and nx: "Suc i0 + n \<le> N" by simp_all
  have ul: "unat (word_of_nat (length (V i0)) :: u64) = length (V i0)"
    using assms(2)[OF i0] by (rule unat_of_nat_u64)
  have up: "[i0..<i0 + Suc n] = i0 # [Suc i0..<Suc i0 + n]" by (simp add: upt_rec)
  have w1: "(word_of_nat i0 :: u32) + 1 = word_of_nat (Suc i0)" by simp
  show ?case
    unfolding up using Suc.IH[OF nx]
    by (simp add: rd_varu_varu ul rd_records_put_gaps w1 del: of_nat_Suc)
qed

lemma ascending_adjacency_map:
  "(\<And>i. i0 \<le> i \<Longrightarrow> i < i0 + n \<Longrightarrow> ascending_records N (word_of_nat i) (R i))
   \<Longrightarrow> ascending_adjacency N (word_of_nat i0) (map R [i0..<i0 + n])"
proof (induction n arbitrary: i0)
  case 0
  then show ?case by simp
next
  case (Suc n)
  have up: "[i0..<i0 + Suc n] = i0 # [Suc i0..<Suc i0 + n]" by (simp add: upt_rec)
  have w1: "(word_of_nat i0 :: u32) + 1 = word_of_nat (Suc i0)" by simp
  have "ascending_adjacency N (word_of_nat (Suc i0)) (map R [Suc i0..<Suc i0 + n])"
    using Suc.prems by (intro Suc.IH) auto
  moreover have "ascending_records N (word_of_nat i0) (R i0)" using Suc.prems by auto
  ultimately show ?case unfolding up by (simp add: w1 del: of_nat_Suc)
qed

lemma emit_canonical:
  fixes ts :: "(u32 \<times> u32 \<times> byte) list"
  assumes g: "build tie ts = Inr g" and small: "length ts < 2 ^ 31"
  shows "canonical_binary (emit g)"
proof -
  define uq where "uq = uniq_of (all_ids ts)"
  define es where "es = cedges uq ts"
  let ?N = "length uq"
  let ?V = "\<lambda>i. std_sort tie (bucket i es)"
  let ?L = "std_sort tie (loops_of es)"
  let ?R = "\<lambda>i. records_of (word_of_nat i) (?V i)"
  from build_shape[of tie ts] g have gu: "uniq g = uq"
    and ok: "offsets_ok ?N (off g) es"
    and si: "sort_inv tie ?N (off g) es ?N (upper_nei g, upper_w g)"
    and lp: "loops g = ?L"
    unfolding uq_def es_def by auto
  have srt: "sorted_wrt (<) uq" unfolding uq_def by (rule uniq_of_strict)
  have sub: "set (all_ids ts) \<subseteq> set uq" unfolding uq_def by (simp add: set_uniq_of)
  have val: "valid_edges ?N es" unfolding es_def using srt sub by (rule valid_cedges)
  have N32: "?N < 2 ^ 32" using length_uniq_of_le[of ts] small unfolding uq_def by simp
  have les: "length es = length ts" by (simp add: es_def cedges_def)
  have V64: "\<And>i. length (?V i) < 2 ^ 64"
  proof -
    fix i
    have "length (?V i) \<le> length ts" using length_bucket_le[of i es] les by simp
    also have "\<dots> < 2 ^ 64" using small by simp
    finally show "length (?V i) < 2 ^ 64" .
  qed
  have Vr: "\<And>i. \<forall>e \<in> set (?V i). unat (fst e) < ?N" using bucket_valid[OF val] by simp
  have Lr: "\<forall>e \<in> set ?L. unat (fst e) < ?N" using loops_of_valid[OF val] by simp
  have "length ?L \<le> length ts" unfolding loops_of_def using les by (simp add: le_trans[OF length_filter_le])
  then have L64: "length ?L < 2 ^ 64" using small by simp
  have uL: "unat (word_of_nat (length ?L) :: u64) = length ?L" using L64 by (rule unat_of_nat_u64)
  have uN: "unat (ucast (ucast (word_of_nat ?N :: u32) :: u64) :: u32) = ?N"
    using N32 by (simp add: ucast_u32_u64_back unat_of_nat_u32)
  have pv: "map (put_vertex g) [0..<?N]
            = map (\<lambda>i. varu (word_of_nat (length (?V i))) @ put_gaps (word_of_nat i) (?V i)) [0..<?N]"
    using put_vertex_bucket[OF ok si] by simp
  define body where "body = varu (ucast (word_of_nat ?N :: u32)) @ varu (word_of_nat (M_noLoops g + length ?L))
      @ put_mapping uq
      @ concat (map (\<lambda>i. varu (word_of_nat (length (?V i))) @ put_gaps (word_of_nat i) (?V i)) [0..<?N])
      @ varu (word_of_nat (length ?L)) @ put_gaps 0 ?L"
  have em: "emit g = header_v2 @ body"
    unfolding emit_def Let_def gu lp pv body_def by simp
  have adj: "\<And>rest. rd_adjacency 0 ?N
           (concat (map (\<lambda>i. varu (word_of_nat (length (?V i))) @ put_gaps (word_of_nat i) (?V i)) [0..<?N]) @ rest)
         = Inr (map ?R [0..<?N], rest)"
    using rd_adjacency_put[of ?N ?V 0 ?N, OF N32 V64] by simp
  have lo: "rd_records 0 (length ?L) (put_gaps 0 ?L) = Inr (records_of 0 ?L, [])"
    using rd_records_put_gaps[of 0 ?L "[]"] by simp
  have aV: "ascending_adjacency ?N 0 (map ?R [0..<?N])"
  proof -
    have "ascending_adjacency ?N (word_of_nat 0) (map ?R [0..<0 + ?N])"
    proof (rule ascending_adjacency_map)
      fix i
      show "ascending_records ?N (word_of_nat i) (?R i)"
        using sorted_bucket_segment[of i tie es] Vr[of i] by (intro ascending_records_of) auto
    qed
    then show ?thesis by simp
  qed
  have aL: "ascending_records ?N 0 (records_of 0 ?L)"
    using sorted_std_sort[of tie "loops_of es"] Lr by (intro ascending_records_of) auto
  have mp: "\<And>rest. rd_mapping_v2 (ucast (ucast (word_of_nat ?N :: u32) :: u64)) (put_mapping uq @ rest)
            = Inr (uq, rest)"
    by (rule rd_mapping_v2_put_mapping[OF uN])
  show ?thesis
    unfolding canonical_binary_def em rd_header_v2 body_def sum.case prod.case rd_counts_v2 mp uN adj
      rd_varu_varu uL lo
    using srt aV aL by simp
qed

text \<open>
  Claim C6. For every input that parses (fewer than \<open>2^31\<close> lines, so that the counters of
  the source hold the numbers of the model), whatever order \<open>std::sort\<close> gives to entries
  with equal keys, the serializer writes a binary of canonical shape: its bytes decode to
  a strictly ascending mapping; for every vertex \<open>i\<close> to records whose indices \<open>j\<close> do not
  decrease from the base \<open>i\<close>, every \<open>j\<close> being the exact sum of its predecessor and the gap
  and below \<open>N\<close>; and to loop records whose vertices do not decrease from the base \<open>0\<close> in
  the same sense. For the empty input the binary ends after the two counts.
\<close>

theorem serializer_canonical_shape:
  assumes "for_each_triplet data = Inr ts" "length ts < 2 ^ 31"
  shows "\<exists>bin. Serializer_run tie data = Inr bin \<and> canonical_binary bin"
proof (cases "ts = []")
  case True
  have "canonical_binary (header_v2 @ varu 0 @ varu 0)" by code_simp
  with True assms(1) show ?thesis by (simp add: Serializer_run_def)
next
  case False
  from build_shape[of tie ts] obtain g where g: "build tie ts = Inr g" by blast
  from emit_canonical[OF g assms(2)] have "canonical_binary (emit g)" .
  with False assms(1) g show ?thesis by (simp add: Serializer_run_def)
qed

theorem serializer_canonical_shape_witness:
  "Serializer_run (\<lambda>xs. sort_key fst (rev xs)) two_parallel_edges_and_loop
     = Inr [0x47, 0x52, 0x50, 0x48, 2, 1, 4, 4, 3, 0, 0, 0, 1, 1, 2,
            3, 1, 1, 1, 20, 0, 9, 0, 0, 0, 1, 3, 255]
   \<and> canonical_binary [0x47, 0x52, 0x50, 0x48, 2, 1, 4, 4, 3, 0, 0, 0, 1, 1, 2,
            3, 1, 1, 1, 20, 0, 9, 0, 0, 0, 1, 3, 255]"
proof -
  have p: "for_each_triplet two_parallel_edges_and_loop
           = Inr [(5, 3, 9), (3, 5, 20), (3, 4, 1), (7, 7, 255)]"
    by code_simp
  have s: "Serializer_run (\<lambda>xs. sort_key fst (rev xs)) two_parallel_edges_and_loop
     = Inr [0x47, 0x52, 0x50, 0x48, 2, 1, 4, 4, 3, 0, 0, 0, 1, 1, 2,
            3, 1, 1, 1, 20, 0, 9, 0, 0, 0, 1, 3, 255]"
    by code_simp
  from serializer_canonical_shape[OF p, of "\<lambda>xs. sort_key fst (rev xs)"] s
  show ?thesis by simp
qed

section \<open>The edges of the decoded lines\<close>

lemma mset_concat_upt_add:
  "u < N \<Longrightarrow>
   mset (concat (map (\<lambda>i. if i = u then F i @ [x] else F i) [0..<N]))
   = mset (concat (map F [0..<N])) + {#x#}"
proof (induction N)
  case 0
  then show ?case by simp
next
  case (Suc N)
  show ?case
  proof (cases "u = N")
    case True
    have m: "map (\<lambda>i. if i = N then F i @ [x] else F i) [0..<N] = map F [0..<N]"
      by (rule map_cong) auto
    show ?thesis unfolding True by (simp add: m)
  next
    case False
    with Suc.prems have "u < N" by simp
    from Suc.IH[OF this] False show ?thesis by simp
  qed
qed

lemma mset_vertex_lines_sort:
  "mset (vertex_lines uq i (std_sort tie B)) = mset (vertex_lines uq i B)"
  by (simp add: vertex_lines_def)

lemma mset_loop_lines_sort:
  "mset (loop_lines uq (std_sort tie B)) = mset (loop_lines uq B)"
  by (simp add: loop_lines_def)

lemma mset_concat_cong:
  "(\<And>i. i < N \<Longrightarrow> mset (F i) = mset (G i)) \<Longrightarrow>
   mset (concat (map F [0..<N])) = mset (concat (map G [0..<N]))"
  by (induction N) auto

lemma mset_lines_unsorted:
  "valid_edges N es \<Longrightarrow>
   mset (concat (map (\<lambda>i. vertex_lines uq i (bucket i es)) [0..<N]) @ loop_lines uq (loops_of es))
   = mset (map (line_of uq) es)"
proof (induction es)
  case Nil
  have "concat (map (\<lambda>i. []) [0..<N]) = ([] :: (u32 \<times> u32 \<times> byte) list)" by (induction N) auto
  then show ?case by (simp add: vertex_lines_def loop_lines_def)
next
  case (Cons e es)
  obtain ia ib w where e: "e = (ia, ib, w)" by (cases e) auto
  from Cons.prems e have v: "unat ia < N" "unat ib < N" "valid_edges N es" by auto
  note ih = Cons.IH[OF v(3)]
  show ?case
  proof (cases "ia = ib")
    case True
    then show ?thesis using ih unfolding e
      by (simp add: bucket_Cons loop_lines_def line_of_def)
  next
    case False
    let ?u = "unat (min ia ib)"
    let ?x = "(uq ! ?u, uq ! unat (max ia ib), w)"
    have u: "?u < N" using v(1,2) by (rule unat_min_less)
    have "mset (concat (map (\<lambda>i. vertex_lines uq i (bucket i (e # es))) [0..<N]))
          = mset (concat (map (\<lambda>i. if i = ?u then vertex_lines uq i (bucket i es) @ [?x]
                                      else vertex_lines uq i (bucket i es)) [0..<N]))"
    proof (rule mset_concat_cong)
      fix i assume "i < N"
      show "mset (vertex_lines uq i (bucket i (e # es)))
            = mset (if i = ?u then vertex_lines uq i (bucket i es) @ [?x]
                    else vertex_lines uq i (bucket i es))"
        unfolding e using False by (simp add: bucket_Cons vertex_lines_def)
    qed
    also have "\<dots> = mset (concat (map (\<lambda>i. vertex_lines uq i (bucket i es)) [0..<N])) + {#?x#}"
      using u by (rule mset_concat_upt_add)
    finally have a: "mset (concat (map (\<lambda>i. vertex_lines uq i (bucket i (e # es))) [0..<N]))
          = mset (concat (map (\<lambda>i. vertex_lines uq i (bucket i es)) [0..<N])) + {#?x#}" .
    have l: "loops_of (e # es) = loops_of es" unfolding e using False by simp
    have lx: "line_of uq e = ?x" unfolding e using False by (simp add: line_of_def)
    from ih have ih': "mset (concat (map (\<lambda>i. vertex_lines uq i (bucket i es)) [0..<N]))
                       + mset (loop_lines uq (loops_of es)) = mset (map (line_of uq) es)"
      by (simp only: mset_append)
    have "mset (concat (map (\<lambda>i. vertex_lines uq i (bucket i (e # es))) [0..<N])
                @ loop_lines uq (loops_of (e # es)))
          = (mset (concat (map (\<lambda>i. vertex_lines uq i (bucket i es)) [0..<N])) + {#?x#})
            + mset (loop_lines uq (loops_of es))"
      by (simp only: mset_append a l)
    also have "\<dots> = (mset (concat (map (\<lambda>i. vertex_lines uq i (bucket i es)) [0..<N]))
                        + mset (loop_lines uq (loops_of es))) + {#?x#}"
      by (simp only: ac_simps)
    also have "\<dots> = mset (map (line_of uq) es) + {#?x#}" by (simp only: ih')
    also have "\<dots> = mset (map (line_of uq) (e # es))" by (simp add: lx)
    finally show ?thesis .
  qed
qed

lemma canon_line_of:
  assumes "sorted_wrt (<) uq" "a \<in> set uq" "b \<in> set uq"
  shows "canon (line_of uq (lb uq a, lb uq b, w)) = canon (a, b, w)"
proof -
  have ia: "uq ! unat (lb uq a) = a" using unat_lb[OF assms(1,2)] lower_bound_mem[OF assms(1,2)] by simp
  have ib: "uq ! unat (lb uq b) = b" using unat_lb[OF assms(1,3)] lower_bound_mem[OF assms(1,3)] by simp
  show ?thesis
  proof (cases "lb uq a = lb uq b")
    case True
    have ab: "a = b" using ia ib True by metis
    have "line_of uq (lb uq b, lb uq b, w) = (b, b, w)" by (simp add: line_of_def ib)
    then show ?thesis unfolding ab by simp
  next
    case False
    then show ?thesis using ia ib
      by (auto simp: line_of_def canon_def min_def max_def)
  qed
qed

lemma canon_lines_cedges:
  assumes "sorted_wrt (<) uq" "set (all_ids ts) \<subseteq> set uq"
  shows "map canon (map (line_of uq) (cedges uq ts)) = map canon ts"
  using assms(2)
proof (induction ts)
  case Nil
  then show ?case by (simp add: cedges_def)
next
  case (Cons t ts)
  obtain a b w where t: "t = (a, b, w)" by (cases t) auto
  from Cons.prems t have m: "a \<in> set uq" "b \<in> set uq" "set (all_ids ts) \<subseteq> set uq"
    by (auto simp: all_ids_def)
  from Cons.IH[OF m(3)] canon_line_of[OF assms(1) m(1,2), of w] show ?case
    unfolding t by (simp add: cedges_def)
qed

section \<open>Reading the written text back\<close>

lemma of_char_digit: "d < 10 \<Longrightarrow> (of_char (char_of (48 + d)) :: nat) = 48 + d"
  by simp

lemma digit_char:
  assumes "d < 10"
  shows "is_digit (char_of (48 + d))" "digit_val (char_of (48 + d)) = d"
    "char_of (48 + d) \<noteq> TAB" "char_of (48 + d) \<noteq> NL" "char_of (48 + d) \<noteq> CR"
proof -
  note o = of_char_digit[OF assms]
  show "is_digit (char_of (48 + d))" unfolding is_digit_def o using assms by simp
  show "digit_val (char_of (48 + d)) = d" unfolding digit_val_def o by simp
  have t: "(of_char TAB :: nat) = 9" "(of_char NL :: nat) = 10" "(of_char CR :: nat) = 13"
    by (simp_all add: TAB_def NL_def CR_def)
  show "char_of (48 + d) \<noteq> TAB"
  proof
    assume "char_of (48 + d) = TAB"
    then have "(of_char (char_of (48 + d)) :: nat) = of_char TAB" by simp
    then show False unfolding o t by simp
  qed
  show "char_of (48 + d) \<noteq> NL"
  proof
    assume "char_of (48 + d) = NL"
    then have "(of_char (char_of (48 + d)) :: nat) = of_char NL" by simp
    then show False unfolding o t by simp
  qed
  show "char_of (48 + d) \<noteq> CR"
  proof
    assume "char_of (48 + d) = CR"
    then have "(of_char (char_of (48 + d)) :: nat) = of_char CR" by simp
    then show False unfolding o t by simp
  qed
qed

lemma delim_not_digit: "\<not> is_digit TAB" "\<not> is_digit NL"
  by (simp_all add: is_digit_def TAB_def NL_def)

lemma to_chars_small: "n < 10 \<Longrightarrow> to_chars n = [char_of (48 + n)]"
  by (subst to_chars.simps) simp

lemma to_chars_big: "\<not> n < 10 \<Longrightarrow> to_chars n = to_chars (n div 10) @ [char_of (48 + n mod 10)]"
  by (subst to_chars.simps) simp

lemma to_chars_Cons: "\<exists>c cs. to_chars n = c # cs \<and> c \<noteq> NL \<and> c \<noteq> CR"
proof (induction n rule: to_chars.induct)
  case (1 n)
  show ?case
  proof (cases "n < 10")
    case True
    then show ?thesis using digit_char(4,5)[OF True] by (simp add: to_chars_small)
  next
    case False
    with 1 obtain c cs where "to_chars (n div 10) = c # cs" "c \<noteq> NL" "c \<noteq> CR" by auto
    then show ?thesis using False by (simp add: to_chars_big)
  qed
qed

lemma parse_u32_loop_to_chars:
  "x * 10 ^ length (to_chars n) + n \<le> 0xFFFFFFFF \<Longrightarrow>
   parse_u32_loop delim x any lst (to_chars n @ rest)
   = parse_u32_loop delim (x * 10 ^ length (to_chars n) + n) True (Some (last (to_chars n))) rest"
proof (induction n arbitrary: x any lst rest rule: to_chars.induct)
  case (1 n)
  show ?case
  proof (cases "n < 10")
    case True
    from "1.prems" True have b: "\<not> x * 10 + n > 0xFFFFFFFF" by (simp add: to_chars_small)
    show ?thesis
      using b digit_char(1,2)[OF True] by (simp add: to_chars_small[OF True] Let_def)
  next
    case False
    let ?k = "length (to_chars (n div 10))"
    let ?c = "char_of (48 + n mod 10)"
    have tc: "to_chars n = to_chars (n div 10) @ [?c]" using False by (rule to_chars_big)
    have len: "length (to_chars n) = Suc ?k" unfolding tc by simp
    have d: "n mod 10 < 10" by simp
    have eq: "(x * 10 ^ ?k + n div 10) * 10 + n mod 10 = x * 10 ^ length (to_chars n) + n"
      unfolding len by (simp add: algebra_simps)
    have "x * 10 ^ ?k + n div 10 \<le> (x * 10 ^ ?k + n div 10) * 10 + n mod 10" by simp
    also have "\<dots> \<le> 0xFFFFFFFF" unfolding eq by (rule "1.prems")
    finally have b1: "x * 10 ^ ?k + n div 10 \<le> 0xFFFFFFFF" .
    have b2: "\<not> (x * 10 ^ ?k + n div 10) * 10 + n mod 10 > 0xFFFFFFFF"
      unfolding eq not_less by (rule "1.prems")
    have "parse_u32_loop delim x any lst (to_chars n @ rest)
          = parse_u32_loop delim x any lst (to_chars (n div 10) @ (?c # rest))"
      unfolding tc by simp
    also have "\<dots> = parse_u32_loop delim (x * 10 ^ ?k + n div 10) True
                         (Some (last (to_chars (n div 10)))) (?c # rest)"
      using "1.IH"[OF False b1] .
    also have "\<dots> = parse_u32_loop delim ((x * 10 ^ ?k + n div 10) * 10 + n mod 10) True (Some ?c) rest"
      using b2 digit_char(1,2)[OF d] by (simp add: Let_def)
    finally show ?thesis unfolding eq tc by simp
  qed
qed

lemma parse_u32_until_to_chars:
  assumes "n \<le> 0xFFFFFFFF" "delim = TAB \<or> delim = NL"
  shows "parse_u32_until delim (to_chars n @ delim # rest) = Some (word_of_nat n, Some delim, rest)"
proof -
  from assms(2) have nd: "\<not> is_digit delim" using delim_not_digit by auto
  have "parse_u32_loop delim 0 False None (to_chars n @ delim # rest)
        = parse_u32_loop delim n True (Some (last (to_chars n))) (delim # rest)"
    using parse_u32_loop_to_chars[of 0 n delim False None "delim # rest"] assms(1) by simp
  also have "\<dots> = Some (n, True, Some delim, rest)" using nd by simp
  finally show ?thesis by (simp add: parse_u32_until_def)
qed

lemma NL_neq_CR: "NL \<noteq> CR"
  by (simp add: NL_def CR_def)

lemma byte_as_u32:
  "\<not> (word_of_nat (unat (w::byte)) :: u32) > 255" "(ucast (word_of_nat (unat w) :: u32) :: byte) = w"
proof -
  have lt: "unat w < 256" using unsigned_less[of w, where 'a=nat] by simp
  then have "unat (word_of_nat (unat w) :: u32) = unat w" by (intro unat_of_nat_u32) simp
  with lt have "unat (word_of_nat (unat w) :: u32) \<le> unat (255 :: u32)" by simp
  then have "(word_of_nat (unat w) :: u32) \<le> 255" by (simp only: word_le_nat_alt)
  then show "\<not> (word_of_nat (unat w) :: u32) > 255" by (simp add: not_less)
  have e: "(word_of_nat (unat w) :: u32) = ucast w" by simp
  show "(ucast (word_of_nat (unat w) :: u32) :: byte) = w"
    unfolding e by (rule bit_eqI) (auto simp add: bit_simps)
qed

lemma for_each_triplet_put_line:
  "for_each_triplet (put_line (a, b, w) @ rest)
   = (case for_each_triplet rest of Inl e \<Rightarrow> Inl e | Inr ts \<Rightarrow> Inr ((a, b, w) # ts))"
proof -
  let ?R2 = "to_chars (unat w) @ NL # rest"
  let ?R1 = "to_chars (unat b) @ TAB # ?R2"
  obtain c cs where c: "to_chars (unat a) = c # cs" "c \<noteq> NL" "c \<noteq> CR"
    using to_chars_Cons[of "unat a"] by blast
  have pl: "put_line (a, b, w) @ rest = c # (cs @ TAB # ?R1)"
    by (simp add: put_line_def putu_def putu8_def c(1))
  have ba: "unat a \<le> 0xFFFFFFFF" using unsigned_less[of a, where 'a=nat] by simp
  have bb: "unat b \<le> 0xFFFFFFFF" using unsigned_less[of b, where 'a=nat] by simp
  have bw: "unat w \<le> 0xFFFFFFFF" using unsigned_less[of w, where 'a=nat] by simp
  have p1: "parse_u32_until TAB (c # (cs @ TAB # ?R1)) = Some (a, Some TAB, ?R1)"
    using parse_u32_until_to_chars[OF ba, of TAB ?R1] by (simp add: c(1))
  have p2: "parse_u32_until TAB ?R1 = Some (b, Some TAB, ?R2)"
    using parse_u32_until_to_chars[OF bb, of TAB ?R2] by simp
  have p3: "parse_u32_until NL ?R2 = Some (word_of_nat (unat w), Some NL, rest)"
    using parse_u32_until_to_chars[OF bw, of NL rest] by simp
  show ?thesis
    unfolding pl
    apply (subst for_each_triplet.simps(2))
    apply (simp only: c(2,3) p1 p2 p3 option.case prod.case if_False simp_thms byte_as_u32)
    apply (simp add: NL_neq_CR)
    done
qed

lemma for_each_triplet_put_lines:
  "for_each_triplet (concat (map put_line ls)) = Inr ls"
proof (induction ls)
  case Nil
  then show ?case by simp
next
  case (Cons l ls)
  obtain a b w where l: "l = (a, b, w)" by (cases l) auto
  show ?case unfolding l using for_each_triplet_put_line[of a b w "concat (map put_line ls)"] Cons.IH
    by simp
qed

section \<open>Round trip past the minimum-size check\<close>

lemma mset_decoded_lines:
  fixes ts :: "(u32 \<times> u32 \<times> byte) list"
  defines "uq \<equiv> uniq_of (all_ids ts)"
  defines "es \<equiv> cedges uq ts"
  shows "mset (map canon (concat (map (\<lambda>i. vertex_lines uq i (std_sort tie (bucket i es))) [0..<length uq])
                          @ loop_lines uq (std_sort tie (loops_of es))))
         = mset (map canon ts)"
proof -
  have srt: "sorted_wrt (<) uq" unfolding uq_def by (rule uniq_of_strict)
  have sub: "set (all_ids ts) \<subseteq> set uq" unfolding uq_def by (simp add: set_uniq_of)
  have val: "valid_edges (length uq) es" unfolding es_def using srt sub by (rule valid_cedges)
  have "mset (concat (map (\<lambda>i. vertex_lines uq i (std_sort tie (bucket i es))) [0..<length uq])
              @ loop_lines uq (std_sort tie (loops_of es)))
        = mset (concat (map (\<lambda>i. vertex_lines uq i (std_sort tie (bucket i es))) [0..<length uq]))
          + mset (loop_lines uq (std_sort tie (loops_of es)))"
    by (rule mset_append)
  also have "\<dots> = mset (concat (map (\<lambda>i. vertex_lines uq i (bucket i es)) [0..<length uq]))
                    + mset (loop_lines uq (loops_of es))"
    using mset_concat_cong[of "length uq" "\<lambda>i. vertex_lines uq i (std_sort tie (bucket i es))"
                              "\<lambda>i. vertex_lines uq i (bucket i es)"]
    by (simp only: mset_vertex_lines_sort mset_loop_lines_sort)
  also have "\<dots> = mset (concat (map (\<lambda>i. vertex_lines uq i (bucket i es)) [0..<length uq])
                          @ loop_lines uq (loops_of es))"
    by (rule mset_append[symmetric])
  also have "\<dots> = mset (map (line_of uq) es)" using val by (rule mset_lines_unsorted)
  finally have "image_mset canon (mset (concat (map (\<lambda>i. vertex_lines uq i (std_sort tie (bucket i es))) [0..<length uq])
              @ loop_lines uq (std_sort tie (loops_of es))))
        = image_mset canon (mset (map (line_of uq) es))"
    by (rule arg_cong)
  also have "\<dots> = mset (map canon (map (line_of uq) es))" by (simp only: mset_map)
  also have "\<dots> = mset (map canon ts)"
    unfolding es_def by (simp only: canon_lines_cedges[OF srt sub])
  finally show ?thesis by (simp only: mset_map)
qed

text \<open>
  Apart from the minimum-size check the round trip holds: for every input that parses
  (fewer than \<open>2^31\<close> lines) and whose binary has at least 18 bytes, the deserializer
  returns a text that parses again, and the canonical edges of the two texts are equal
  as multisets.
\<close>

lemma round_trip_past_size_check:
  assumes p: "for_each_triplet data = Inr ts" and small: "length ts < 2 ^ 31"
    and s: "Serializer_run tie data = Inr bin" and big: "18 \<le> length bin"
  shows "\<exists>text ts'. Deserializer_run mem bin = Inr text \<and> for_each_triplet text = Inr ts'
           \<and> mset (map canon ts') = mset (map canon ts)"
proof -
  have ne: "length ts \<noteq> 0"
  proof
    assume "length ts = 0"
    with p s have "bin = header_v2 @ varu 0 @ varu 0" by (simp add: Serializer_run_def)
    then have "length bin = 8" by (simp add: header_v2_def varu_small)
    with big show False by simp
  qed
  from build_shape[of tie ts] obtain g where g: "build tie ts = Inr g" by blast
  from p s ne g have bin: "bin = emit g" by (simp add: Serializer_run_def)
  let ?uq = "uniq_of (all_ids ts)"
  let ?ls = "concat (map (\<lambda>i. vertex_lines ?uq i (std_sort tie (bucket i (cedges ?uq ts)))) [0..<length ?uq])
             @ loop_lines ?uq (std_sort tie (loops_of (cedges ?uq ts)))"
  have d: "decode mem bin = Inr (?uq, ?ls)"
    unfolding bin using g small big[unfolded bin] by (rule decode_emit)
  then have "Deserializer_run mem bin = Inr (concat (map put_line ?ls))"
    by (simp add: Deserializer_run_def)
  moreover have "for_each_triplet (concat (map put_line ?ls)) = Inr ?ls"
    by (rule for_each_triplet_put_lines)
  moreover have "mset (map canon ?ls) = mset (map canon ts)" by (rule mset_decoded_lines)
  ultimately show ?thesis by blast
qed

lemma rd_graph_v2_M:
  "rd_graph mem 2 (varu n @ varu M @ rest) = rd_graph mem 2 (varu n @ varu M' @ rest)"
  by (simp add: rd_graph_def rd_counts_v2)

lemma rd_graph_v1_M:
  "rd_graph mem 1 (u32le N @ u64le M @ rest) = rd_graph mem 1 (u32le N @ u64le M' @ rest)"
  by (simp add: rd_graph_def rd_counts_v1)

text \<open>
  Among binaries that pass the minimum-size check the value of \<open>M\<close> does not matter,
  and the two versions of one graph give the same text.
\<close>

lemma M_total_ignored_past_size_check:
  "12 \<le> length (varu n @ varu M @ rest) \<Longrightarrow> 12 \<le> length (varu n @ varu M' @ rest) \<Longrightarrow>
   Deserializer_run mem (header_v2 @ varu n @ varu M @ rest)
   = Deserializer_run mem (header_v2 @ varu n @ varu M' @ rest)"
  "Deserializer_run mem (header_v1 @ u32le N @ u64le M @ rest)
   = Deserializer_run mem (header_v1 @ u32le N @ u64le M' @ rest)"
proof -
  assume "12 \<le> length (varu n @ varu M @ rest)" "12 \<le> length (varu n @ varu M' @ rest)"
  then show "Deserializer_run mem (header_v2 @ varu n @ varu M @ rest)
             = Deserializer_run mem (header_v2 @ varu n @ varu M' @ rest)"
    unfolding Deserializer_run_def by (simp only: decode_v2 rd_graph_v2_M[of mem n M rest M'])
next
  have "12 \<le> length (u32le N @ u64le M @ rest)" "12 \<le> length (u32le N @ u64le M' @ rest)"
    by simp_all
  then show "Deserializer_run mem (header_v1 @ u32le N @ u64le M @ rest)
             = Deserializer_run mem (header_v1 @ u32le N @ u64le M' @ rest)"
    unfolding Deserializer_run_def by (simp only: decode_v1 rd_graph_v1_M[of mem N M rest M'])
qed

lemma cross_version_past_size_check:
  assumes "unat N = length orig"
    and "12 \<le> length (varu (ucast N) @ varu M' @ put_mapping orig @ rest)"
  shows "Deserializer_run mem (header_v1 @ u32le N @ u64le M @ concat (map u32le orig) @ rest)
         = Deserializer_run mem (header_v2 @ varu (ucast N) @ varu M' @ put_mapping orig @ rest)"
proof -
  have l1: "12 \<le> length (u32le N @ u64le M @ concat (map u32le orig) @ rest)" by simp
  have g1: "rd_graph mem 1 (u32le N @ u64le M @ concat (map u32le orig) @ rest)
            = (case rd_sections mem orig N rest of Inl e \<Rightarrow> Inl e | Inr ls \<Rightarrow> Inr (orig, ls))"
    unfolding rd_graph_def rd_counts_v1 using rd_mapping_v1_raw[of orig rest] assms(1) by simp
  have g2: "rd_graph mem 2 (varu (ucast N) @ varu M' @ put_mapping orig @ rest)
            = (case rd_sections mem orig N rest of Inl e \<Rightarrow> Inl e | Inr ls \<Rightarrow> Inr (orig, ls))"
    unfolding rd_graph_def rd_counts_v2 ucast_u32_u64_back
    using rd_mapping_v2_put_mapping[OF assms(1), of rest] by simp
  show ?thesis
    unfolding Deserializer_run_def decode_v1[OF l1] decode_v2[OF assms(2)] g1 g2 ..
qed

section \<open>Versions and the empty binary\<close>

text \<open>
  The eight bytes written for the empty input end after the two counts: past the size
  check the reader would still miss the loop count \<open>L\<close>.
\<close>

lemma empty_binary_has_no_loop_section:
  "rd_graph mem 2 (varu 0 @ varu 0) = Inl UnexpectedEOF"
  using rd_counts_v2[of 0 0 "[]"]
  by (simp add: rd_graph_def rd_mapping_v2_def rd_sections_def rd_varu_def)

text \<open>The writer emits version 2 only; the reader accepts the version bytes 1 and 2.\<close>

lemma writer_emits_version_2:
  "Serializer_run tie data = Inr bin \<Longrightarrow> take 6 bin = header_v2"
  by (auto simp: Serializer_run_def emit_def header_v2_def Let_def split: sum.splits if_splits)

lemma reader_accepts_versions_1_and_2:
  "rd_header ([0x47, 0x52, 0x50, 0x48, v, 1] @ rest)
   = (if v = 1 \<or> v = 2 then Inr (v, rest) else Inl UnsupportedVersion)"
  by (simp add: rd_header_def)

end
